theory Spec2Isabelle
  imports Main "HOL-Library.AList"
begin

section \<open>The mail server of \<^verbatim>\<open>mailtm/server/srv.py\<close>\<close>

text \<open>
  A shallow embedding of \<^verbatim>\<open>MailServerBase\<close>: the handler registry, the dispatcher, the
  two change detectors, the logger, the poll loop of \<^verbatim>\<open>runner\<close> and the entry point
  \<^verbatim>\<open>run\<close>. The object's fields are fields of one record; what the code does to the outside
  (sleeping, fetching, invoking a handler, closing the client, printing) is appended to a
  trace, in the order in which the single control flow does it.
\<close>

subsection \<open>Data\<close>

text \<open>
  Python's exception hierarchy, as far as the code distinguishes it: the clause
  \<^verbatim>\<open>except Exception\<close> of \<^verbatim>\<open>runner\<close> catches the first kind only, the clause
  \<^verbatim>\<open>except KeyboardInterrupt\<close> of \<^verbatim>\<open>run\<close> the second only, and neither catches any other
  \<^verbatim>\<open>BaseException\<close> (\<^verbatim>\<open>SystemExit\<close>, \<^verbatim>\<open>CancelledError\<close>).
\<close>

datatype exc = Exception string | KeyboardInterrupt | OtherBaseException string

fun is_Exception :: "exc \<Rightarrow> bool" where
  "is_Exception (Exception m) = True"
| "is_Exception KeyboardInterrupt = False"
| "is_Exception (OtherBaseException m) = False"

text \<open>
  Modelled from the spec: the classes \<^verbatim>\<open>Message\<close>, \<^verbatim>\<open>Domain\<close> and the two views of
  \<^verbatim>\<open>mailtm.abc.modals\<close> are not among the sources. The spec gives a message an identifier, a
  sender address and other payload fields, a domain an identifier and a name; the code reads
  \<^verbatim>\<open>.id\<close>, \<^verbatim>\<open>.message_from.address\<close>, \<^verbatim>\<open>.domain_name\<close>, \<^verbatim>\<open>.messages\<close> and \<^verbatim>\<open>.domains\<close>.
  The sender of a message is optional: the code silences the type checker where it reads
  \<^verbatim>\<open>.message_from.address\<close>, and a message whose \<^verbatim>\<open>message_from\<close> is \<^verbatim>\<open>None\<close> makes
  that attribute access raise. The field \<open>message_from\<close> holds the address of the sender,
  if the message has one.
\<close>

record message =
  msg_id :: string
  message_from :: "string option"
  msg_payload :: string

record domain =
  dom_id :: string
  domain_name :: string

record message_view =
  messages :: "message list"

record domain_view =
  domains :: "domain list"

text \<open>What one awaited call of the mail client gives: a view, \<^verbatim>\<open>None\<close>, or an exception.\<close>

datatype 'a fetch = Returns "'a option" | Raises exc

text \<open>
  The keys of \<^verbatim>\<open>self.handlers\<close> are event classes; \<^verbatim>\<open>subscribe\<close> accepts any subclass of
  \<^verbatim>\<open>BaseEvent\<close>. An event holds the entity it reports (the references to the client and to
  the server are left out).
\<close>

datatype event_type = NewMessageT | DomainChangeT | OtherT string

datatype event = NewMessage message | DomainChange domain | OtherEvent string

fun type_of :: "event \<Rightarrow> event_type" where
  "type_of (NewMessage m) = NewMessageT"
| "type_of (DomainChange d) = DomainChangeT"
| "type_of (OtherEvent n) = OtherT n"

text \<open>A handler is a Python function object; the registry holds its identity.\<close>

type_synonym handler_id = nat

datatype severity = INFO | WARNING | ERROR

text \<open>
  The texts the code logs, without the time stamp and the colour codes that \<^verbatim>\<open>log\<close> adds.
\<close>

datatype log_text =
    SessionStarted
  | PoolingRate "int option"
  | LoggingEnabled "bool option"
  | BannerEnabled "bool option"
  | SubscribedEvents nat
  | ReceivedFrom string
  | DomainChanged string
  | BannerException exc
  | RunnerException exc
  | Goodbye

text \<open>The four lines \<^verbatim>\<open>log\<close> can print, by their prefix.\<close>

datatype line_kind = InfoLine | WarningLine | ErrorLine | UnrecognizedLine

datatype action =
    Sleep int
  | GetMessages
  | GetDomains
  | WriteLastMsg message
  | WriteLastDomain domain
  | Invoke handler_id event
  | Close
  | Print line_kind log_text
  | PrintBanner string

text \<open>
  The fields of \<^verbatim>\<open>self\<close> set by \<^verbatim>\<open>__init__\<close>, then the world the handlers act on and
  the trace. A handler works on the world only: it is user code, and the model gives it no
  access to the server's fields.
\<close>

record 'w server =
  banner_enabled :: "bool option"
  banner_path :: "string option"
  pooling_rate :: "int option"
  suppress_errors :: "bool option"
  logging_enabled :: "bool option"
  handlers :: "(event_type \<times> handler_id list) list"
  last_msg :: "message list"
  last_domain :: "domain list"
  world :: 'w
  trace :: "action list"

text \<open>
  What the code cannot decide: how a handler behaves (its effect on the world, and the
  exception it raises, if any), what the \<open>k\<close>-th call of \<^verbatim>\<open>mail_client.close()\<close> does, and
  what reading and formatting the banner file gives.
\<close>

record 'w env =
  handler :: "handler_id \<Rightarrow> event \<Rightarrow> 'w \<Rightarrow> 'w \<times> exc option"
  close_client :: "nat \<Rightarrow> exc option"
  banner_file :: "exc + string"

text \<open>
  What the outside gives during one iteration of the loop: the sleep (which an interruption
  can end with an exception) and the two fetches, each read only if the code makes the call.
\<close>

record tick_input =
  sleep_in :: "exc option"
  messages_in :: "message_view fetch"
  domains_in :: "domain_view fetch"

text \<open>A call returns normally or raises; the state it leaves behind is kept either way.\<close>

datatype 's result = Ok 's | Raise exc 's

text \<open>
  The loop is \<^verbatim>\<open>while True\<close>: over a finite list of inputs it either has raised, or is
  still running when the inputs end.
\<close>

datatype 's outcome = Returned 's | Raised exc 's | Running 's

fun final :: "'s outcome \<Rightarrow> 's" where
  "final (Returned s) = s"
| "final (Raised e s) = s"
| "final (Running s) = s"

subsection \<open>Construction\<close>

definition init ::
  "int option \<Rightarrow> bool option \<Rightarrow> string option \<Rightarrow> bool option \<Rightarrow> bool option \<Rightarrow> 'w \<Rightarrow> 'w server" where
  "init rate banner path suppress logging w =
     \<lparr>banner_enabled = banner, banner_path = path, pooling_rate = rate,
      suppress_errors = suppress, logging_enabled = logging,
      handlers = [], last_msg = [], last_domain = [], world = w, trace = []\<rparr>"

definition default_banner :: string where
  "default_banner = ''mailtm/server/assets/banner.txt''"

text \<open>The constructor with every optional argument left at its default.\<close>

definition default_server :: "int option \<Rightarrow> 'w \<Rightarrow> 'w server" where
  "default_server rate w = init rate (Some True) (Some default_banner) (Some False) (Some False) w"

subsection \<open>Logging\<close>

definition emit :: "action \<Rightarrow> 'w server \<Rightarrow> 'w server" where
  "emit a s = s\<lparr>trace := trace s @ [a]\<rparr>"

definition log_lines :: "bool option \<Rightarrow> bool option \<Rightarrow> log_text \<Rightarrow> severity \<Rightarrow> action list" where
  "log_lines logging suppress msg sev =
     (if logging = Some True then
        (if sev = INFO then [Print InfoLine msg] else []) @
        (if suppress = Some False then
           (if sev = WARNING then [Print WarningLine msg]
            else if sev = ERROR then [Print ErrorLine msg]
            else [])
         else [Print UnrecognizedLine msg])
      else [])"

definition log :: "log_text \<Rightarrow> severity \<Rightarrow> 'w server \<Rightarrow> 'w server" where
  "log msg sev s =
     s\<lparr>trace := trace s @ log_lines (logging_enabled s) (suppress_errors s) msg sev\<rparr>"

subsection \<open>Registry\<close>

definition subscribe :: "event_type \<Rightarrow> handler_id \<Rightarrow> 'w server \<Rightarrow> 'w server" where
  "subscribe event_type handler_func s =
     (let hs = (if map_of (handlers s) event_type = None
                then AList.update event_type [] (handlers s)
                else handlers s)
      in s\<lparr>handlers := AList.map_entry event_type (\<lambda>l. l @ [handler_func]) hs\<rparr>)"

definition on_new_message :: "handler_id \<Rightarrow> 'w server \<Rightarrow> 'w server" where
  "on_new_message func s =
     (let hs = (if map_of (handlers s) NewMessageT = None
                then AList.update NewMessageT [] (handlers s)
                else handlers s)
      in s\<lparr>handlers := AList.map_entry NewMessageT (\<lambda>l. l @ [func]) hs\<rparr>)"

definition on_new_domain :: "handler_id \<Rightarrow> 'w server \<Rightarrow> 'w server" where
  "on_new_domain func s =
     (let hs = (if map_of (handlers s) DomainChangeT = None
                then AList.update DomainChangeT [] (handlers s)
                else handlers s)
      in s\<lparr>handlers := AList.map_entry DomainChangeT (\<lambda>l. l @ [func]) hs\<rparr>)"

text \<open>\<^verbatim>\<open>self.handlers.get(t, [])\<close>\<close>

definition handlers_get :: "(event_type \<times> handler_id list) list \<Rightarrow> event_type \<Rightarrow> handler_id list" where
  "handlers_get hs t = (case map_of hs t of None \<Rightarrow> [] | Some l \<Rightarrow> l)"

subsection \<open>Dispatcher\<close>

text \<open>
  The \<^verbatim>\<open>for\<close> loop of \<^verbatim>\<open>dispatch\<close>: each handler is awaited before the next is called, and
  the first exception leaves the loop.
\<close>

fun dispatch_loop :: "'w env \<Rightarrow> event \<Rightarrow> handler_id list \<Rightarrow> 'w server \<Rightarrow> 'w server result" where
  "dispatch_loop env ev [] s = Ok s"
| "dispatch_loop env ev (h # hs) s =
     (let s1 = emit (Invoke h ev) s;
          r = handler env h ev (world s1);
          s2 = s1\<lparr>world := fst r\<rparr>
      in case snd r of
           None \<Rightarrow> dispatch_loop env ev hs s2
         | Some e \<Rightarrow> Raise e s2)"

definition dispatch :: "'w env \<Rightarrow> event \<Rightarrow> 'w server \<Rightarrow> 'w server result" where
  "dispatch env ev s = dispatch_loop env ev (handlers_get (handlers s) (type_of ev)) s"

subsection \<open>Change detectors\<close>

text \<open>
  The exception of \<^verbatim>\<open>msg_view.messages[0].message_from.address\<close> when \<^verbatim>\<open>message_from\<close> is
  \<^verbatim>\<open>None\<close>. The argument of \<^verbatim>\<open>self.log\<close> is evaluated before \<^verbatim>\<open>log\<close> is entered, so
  the exception is raised whether logging is enabled or not.
\<close>

definition attribute_error :: exc where
  "attribute_error = Exception ''AttributeError''"

definition check_for_new_messages ::
  "'w env \<Rightarrow> message_view fetch \<Rightarrow> 'w server \<Rightarrow> 'w server result" where
  "check_for_new_messages env r s =
     (let s0 = emit GetMessages s in
      case r of
        Raises e \<Rightarrow> Raise e s0
      | Returns None \<Rightarrow> Ok s0
      | Returns (Some msg_view) \<Rightarrow>
          (case messages msg_view of
             [] \<Rightarrow> Ok s0
           | m # rest \<Rightarrow>
               if (case last_msg s0 of [] \<Rightarrow> True | l # ls \<Rightarrow> msg_id l \<noteq> msg_id m) then
                 (let s1 = emit (WriteLastMsg m)
                             (s0\<lparr>last_msg := (case last_msg s0 of
                                                 [] \<Rightarrow> [m]
                                               | l # ls \<Rightarrow> m # ls)\<rparr>)
                  in case dispatch env (NewMessage m) s1 of
                       Raise e s2 \<Rightarrow> Raise e s2
                     | Ok s2 \<Rightarrow>
                         (case message_from m of
                            None \<Rightarrow> Raise attribute_error s2
                          | Some a \<Rightarrow> Ok (log (ReceivedFrom a) INFO s2)))
               else Ok s0))"

definition check_for_new_domain ::
  "'w env \<Rightarrow> domain_view fetch \<Rightarrow> 'w server \<Rightarrow> 'w server result" where
  "check_for_new_domain env r s =
     (let s0 = emit GetDomains s in
      case r of
        Raises e \<Rightarrow> Raise e s0
      | Returns None \<Rightarrow> Ok s0
      | Returns (Some domain_view) \<Rightarrow>
          (case domains domain_view of
             [] \<Rightarrow> Ok s0
           | d # rest \<Rightarrow>
               if (case last_domain s0 of [] \<Rightarrow> True | l # ls \<Rightarrow> dom_id l \<noteq> dom_id d) then
                 (let s1 = emit (WriteLastDomain d)
                             (s0\<lparr>last_domain := (case last_domain s0 of
                                                    [] \<Rightarrow> [d]
                                                  | l # ls \<Rightarrow> d # ls)\<rparr>)
                  in case dispatch env (DomainChange d) s1 of
                       Raise e s2 \<Rightarrow> Raise e s2
                     | Ok s2 \<Rightarrow> Ok (log (DomainChanged (domain_name d)) WARNING s2))
               else Ok s0))"

subsection \<open>The mail client's \<^verbatim>\<open>close\<close> and the banner\<close>

definition n_closes :: "action list \<Rightarrow> nat" where
  "n_closes tr = length (filter (\<lambda>a. a = Close) tr)"

definition close :: "'w env \<Rightarrow> 'w server \<Rightarrow> 'w server result" where
  "close env s =
     (case close_client env (n_closes (trace s)) of
        None \<Rightarrow> Ok (emit Close s)
      | Some e \<Rightarrow> Raise e (emit Close s))"

definition banner :: "'w env \<Rightarrow> 'w server \<Rightarrow> 'w server result" where
  "banner env s =
     (case banner_path s of
        None \<Rightarrow> Ok s
      | Some p \<Rightarrow>
          (case banner_file env of
             Inr details \<Rightarrow> Ok (emit (PrintBanner details) s)
           | Inl e \<Rightarrow>
               if is_Exception e then Ok (log (BannerException e) INFO s)
               else Raise e s))"

subsection \<open>The poll loop\<close>

text \<open>\<^verbatim>\<open>x or 1\<close>: Python's truth value of an \<^verbatim>\<open>Optional[int]\<close>.\<close>

definition truthy :: "int option \<Rightarrow> bool" where
  "truthy r = (case r of None \<Rightarrow> False | Some n \<Rightarrow> n \<noteq> 0)"

definition sleep_delay :: "int option \<Rightarrow> int" where
  "sleep_delay r = (case r of None \<Rightarrow> 1 | Some n \<Rightarrow> if truthy r then n else 1)"

definition no_subscription :: exc where
  "no_subscription = Exception ''It seems like you have not subscribed to any events.''"

text \<open>One iteration of the body of \<^verbatim>\<open>while True\<close>.\<close>

definition tick :: "'w env \<Rightarrow> tick_input \<Rightarrow> 'w server \<Rightarrow> 'w server result" where
  "tick env inp s =
     (let s0 = emit (Sleep (sleep_delay (pooling_rate s))) s in
      case sleep_in inp of
        Some e \<Rightarrow> Raise e s0
      | None \<Rightarrow>
          (case (if map_of (handlers s0) NewMessageT \<noteq> None
                 then check_for_new_messages env (messages_in inp) s0
                 else Ok s0) of
             Raise e s1 \<Rightarrow> Raise e s1
           | Ok s1 \<Rightarrow>
               (case (if map_of (handlers s1) DomainChangeT \<noteq> None
                      then check_for_new_domain env (domains_in inp) s1
                      else Ok s1) of
                  Raise e s2 \<Rightarrow> Raise e s2
                | Ok s2 \<Rightarrow>
                    if handlers s2 = [] then
                      (case close env s2 of
                         Raise e s3 \<Rightarrow> Raise e s3
                       | Ok s3 \<Rightarrow> Raise no_subscription s3)
                    else Ok s2)))"

fun loop :: "'w env \<Rightarrow> tick_input list \<Rightarrow> 'w server \<Rightarrow> 'w server outcome" where
  "loop env [] s = Running s"
| "loop env (inp # inps) s =
     (case tick env inp s of
        Ok s' \<Rightarrow> loop env inps s'
      | Raise e s' \<Rightarrow> Raised e s')"

text \<open>The five calls of \<^verbatim>\<open>log\<close> at the start of the \<^verbatim>\<open>try\<close> block.\<close>

definition startup :: "'w server \<Rightarrow> 'w server" where
  "startup s =
     log (SubscribedEvents (length (handlers s))) INFO
       (log (BannerEnabled (banner_enabled s)) INFO
         (log (LoggingEnabled (logging_enabled s)) INFO
           (log (PoolingRate (pooling_rate s)) INFO
             (log SessionStarted INFO s))))"

text \<open>The \<^verbatim>\<open>try\<close> statement of \<^verbatim>\<open>runner\<close>, with its clause \<^verbatim>\<open>except Exception\<close>.\<close>

definition try_loop :: "'w env \<Rightarrow> tick_input list \<Rightarrow> 'w server \<Rightarrow> 'w server outcome" where
  "try_loop env inps s =
     (case loop env inps (startup s) of
        Running s1 \<Rightarrow> Running s1
      | Returned s1 \<Rightarrow> Returned s1
      | Raised e s1 \<Rightarrow>
          if is_Exception e then
            (case close env s1 of
               Raise e' s2 \<Rightarrow> Raised e' s2
             | Ok s2 \<Rightarrow> Returned (log (RunnerException e) INFO s2))
          else Raised e s1)"

definition runner :: "'w env \<Rightarrow> tick_input list \<Rightarrow> 'w server \<Rightarrow> 'w server outcome" where
  "runner env inps s =
     (case (if banner_enabled s = Some True then banner env s else Ok s) of
        Raise e s0 \<Rightarrow> Raised e s0
      | Ok s0 \<Rightarrow> try_loop env inps s0)"

definition run :: "'w env \<Rightarrow> tick_input list \<Rightarrow> 'w server \<Rightarrow> 'w server outcome" where
  "run env inps s =
     (case runner env inps s of
        Returned s' \<Rightarrow> Returned s'
      | Running s' \<Rightarrow> Running s'
      | Raised e s' \<Rightarrow>
          (case e of
             KeyboardInterrupt \<Rightarrow> Returned (log Goodbye WARNING s')
           | Exception m \<Rightarrow> Raised e s'
           | OtherBaseException m \<Rightarrow> Raised e s'))"

section \<open>Notions used in the statements\<close>

fun state_of :: "'s result \<Rightarrow> 's" where
  "state_of (Ok s) = s"
| "state_of (Raise e s) = s"

text \<open>
  The server after the handlers \<open>hs\<close> have been invoked with the event, one after the
  other, each on the world the one before it left.
\<close>

definition after_handlers :: "'w env \<Rightarrow> event \<Rightarrow> handler_id list \<Rightarrow> 'w server \<Rightarrow> 'w server" where
  "after_handlers env ev hs s =
     s\<lparr>world := fold (\<lambda>h w. fst (handler env h ev w)) hs (world s),
       trace := trace s @ map (\<lambda>h. Invoke h ev) hs\<rparr>"

text \<open>A sequence of registrations, in the order in which they are made.\<close>

definition register_all :: "(event_type \<times> handler_id) list \<Rightarrow> 'w server \<Rightarrow> 'w server" where
  "register_all regs s = fold (\<lambda>r. subscribe (fst r) (snd r)) regs s"

definition registered_for :: "event_type \<Rightarrow> (event_type \<times> handler_id) list \<Rightarrow> handler_id list" where
  "registered_for t regs = map snd (filter (\<lambda>r. fst r = t) regs)"

text \<open>The invariant of the two last-seen holders.\<close>

definition slots_ok :: "'w server \<Rightarrow> bool" where
  "slots_ok s = (length (last_msg s) \<le> 1 \<and> length (last_domain s) \<le> 1)"

fun is_msg_action :: "action \<Rightarrow> bool" where
  "is_msg_action GetMessages = True"
| "is_msg_action (WriteLastMsg m) = True"
| "is_msg_action (Invoke h (NewMessage m)) = True"
| "is_msg_action (Print k (ReceivedFrom a)) = True"
| "is_msg_action a = False"

fun is_dom_action :: "action \<Rightarrow> bool" where
  "is_dom_action GetDomains = True"
| "is_dom_action (WriteLastDomain d) = True"
| "is_dom_action (Invoke h (DomainChange d)) = True"
| "is_dom_action (Print k (DomainChanged n)) = True"
| "is_dom_action a = False"

fun sleeps :: "action list \<Rightarrow> int list" where
  "sleeps [] = []"
| "sleeps (Sleep d # tr) = d # sleeps tr"
| "sleeps (a # tr) = sleeps tr"

subsection \<open>The loop body in three phases\<close>

text \<open>What the loop body does after the sleep: the two guarded checks and the test for an empty registry.\<close>

definition msg_phase :: "'w env \<Rightarrow> tick_input \<Rightarrow> 'w server \<Rightarrow> 'w server result" where
  "msg_phase env inp s =
     (if map_of (handlers s) NewMessageT \<noteq> None
      then check_for_new_messages env (messages_in inp) s else Ok s)"

definition dom_phase :: "'w env \<Rightarrow> tick_input \<Rightarrow> 'w server \<Rightarrow> 'w server result" where
  "dom_phase env inp s =
     (if map_of (handlers s) DomainChangeT \<noteq> None
      then check_for_new_domain env (domains_in inp) s else Ok s)"

definition end_phase :: "'w env \<Rightarrow> 'w server \<Rightarrow> 'w server result" where
  "end_phase env s =
     (if handlers s = [] then
        (case close env s of Raise e s3 \<Rightarrow> Raise e s3 | Ok s3 \<Rightarrow> Raise no_subscription s3)
      else Ok s)"

text \<open>The handler invocations of a trace, in order.\<close>

fun invocations :: "action list \<Rightarrow> (handler_id \<times> event) list" where
  "invocations [] = []"
| "invocations (Invoke h ev # tr) = (h, ev) # invocations tr"
| "invocations (a # tr) = invocations tr"

text \<open>How often a trace writes the message slot, and the domain slot.\<close>

fun msg_writes :: "action list \<Rightarrow> nat" where
  "msg_writes [] = 0"
| "msg_writes (WriteLastMsg m # tr) = Suc (msg_writes tr)"
| "msg_writes (a # tr) = msg_writes tr"

fun dom_writes :: "action list \<Rightarrow> nat" where
  "dom_writes [] = 0"
| "dom_writes (WriteLastDomain d # tr) = Suc (dom_writes tr)"
| "dom_writes (a # tr) = dom_writes tr"

text \<open>
  The test of the two checks, \<^verbatim>\<open>not self._last_msg or self._last_msg[0].id != fetched.id\<close>:
  the slot is empty or holds an entity with another identifier.
\<close>

definition differs_msg :: "message list \<Rightarrow> message \<Rightarrow> bool" where
  "differs_msg slot m = (case slot of [] \<Rightarrow> True | l # ls \<Rightarrow> msg_id l \<noteq> msg_id m)"

definition differs_dom :: "domain list \<Rightarrow> domain \<Rightarrow> bool" where
  "differs_dom slot d = (case slot of [] \<Rightarrow> True | l # ls \<Rightarrow> dom_id l \<noteq> dom_id d)"

subsection \<open>Concrete servers and environments\<close>

text \<open>Handlers that never fail and append what they were called with to the world.\<close>

definition recorder :: "(handler_id \<times> event) list env" where
  "recorder = \<lparr>handler = (\<lambda>h ev w. (w @ [(h, ev)], None)),
               close_client = (\<lambda>k. None),
               banner_file = Inr ''banner''\<rparr>"

definition msg :: "string \<Rightarrow> string \<Rightarrow> message" where
  "msg i a = \<lparr>msg_id = i, message_from = Some a, msg_payload = []\<rparr>"

text \<open>A message without sender.\<close>

definition anonymous :: "string \<Rightarrow> message" where
  "anonymous i = \<lparr>msg_id = i, message_from = None, msg_payload = []\<rparr>"

definition dom :: "string \<Rightarrow> string \<Rightarrow> domain" where
  "dom i n = \<lparr>dom_id = i, domain_name = n\<rparr>"

definition four_regs :: "(event_type \<times> handler_id) list" where
  "four_regs = [(NewMessageT, 1), (DomainChangeT, 2), (NewMessageT, 3), (NewMessageT, 1)]"

definition bare :: "(handler_id \<times> event) list server" where
  "bare = init None None None None None []"

text \<open>A server that has seen the message \<open>m1\<close> and the domain \<open>d1\<close>.\<close>

definition seen :: "(handler_id \<times> event) list server" where
  "seen = bare\<lparr>last_msg := [msg ''m1'' ''a@x.org''], last_domain := [dom ''d1'' ''x.org'']\<rparr>"

text \<open>A server constructed with a polling rate of 0.\<close>

definition zero_rate :: "(handler_id \<times> event) list server" where
  "zero_rate = init (Some 0) None None None None []"

text \<open>An iteration in which nothing happens outside: the sleep ends normally, both fetches give nothing.\<close>

definition quiet :: tick_input where
  "quiet = \<lparr>sleep_in = None, messages_in = Returns None, domains_in = Returns None\<rparr>"

text \<open>An iteration whose sleep is ended by the operator's interrupt.\<close>

definition interrupted :: tick_input where
  "interrupted = \<lparr>sleep_in = Some KeyboardInterrupt, messages_in = Returns None,
                   domains_in = Returns None\<rparr>"

text \<open>An iteration in which the message fetch gives a view whose newest message is \<open>m\<close>.\<close>

definition got :: "message \<Rightarrow> tick_input" where
  "got m = \<lparr>sleep_in = None, messages_in = Returns (Some \<lparr>messages = [m]\<rparr>),
            domains_in = Returns None\<rparr>"

text \<open>An iteration in which the domain fetch gives a view whose first domain is \<open>d\<close>.\<close>

definition got_dom :: "domain \<Rightarrow> tick_input" where
  "got_dom d = \<lparr>sleep_in = None, messages_in = Returns None,
                domains_in = Returns (Some \<lparr>domains = [d]\<rparr>)\<rparr>"

text \<open>An iteration in which both fetches give something: the message \<open>m\<close> and the domain \<open>d\<close>.\<close>

definition got_both :: "message \<Rightarrow> domain \<Rightarrow> tick_input" where
  "got_both m d = \<lparr>sleep_in = None, messages_in = Returns (Some \<lparr>messages = [m]\<rparr>),
                   domains_in = Returns (Some \<lparr>domains = [d]\<rparr>)\<rparr>"

text \<open>A server constructed with logging enabled and errors not suppressed.\<close>

definition talking :: "(handler_id \<times> event) list server" where
  "talking = init None None None (Some False) (Some True) []"

text \<open>Handlers that raise as soon as they are called, leaving the world as it was.\<close>

definition faulty :: "(handler_id \<times> event) list env" where
  "faulty = \<lparr>handler = (\<lambda>h ev w. (w, Some (Exception ''boom''))),
             close_client = (\<lambda>k. None),
             banner_file = Inr ''banner''\<rparr>"

text \<open>An iteration whose message fetch raises \<open>e\<close>.\<close>

definition fetch_fails :: "exc \<Rightarrow> tick_input" where
  "fetch_fails e = \<lparr>sleep_in = None, messages_in = Raises e, domains_in = Returns None\<rparr>"

text \<open>The lines \<^verbatim>\<open>log\<close> has printed in a trace, in order.\<close>

fun prints :: "action list \<Rightarrow> (line_kind \<times> log_text) list" where
  "prints [] = []"
| "prints (Print k t # tr) = (k, t) # prints tr"
| "prints (a # tr) = prints tr"

subsection \<open>Failures of an iteration\<close>

text \<open>
  When the handlers \<open>hs\<close> are called one after the other with the event, starting in the
  world \<open>w\<close>, the one at position \<open>k\<close> is the first that raises, and it raises \<open>e\<close>.
\<close>

definition first_failure :: "'w env \<Rightarrow> event \<Rightarrow> handler_id list \<Rightarrow> 'w \<Rightarrow> nat \<Rightarrow> exc \<Rightarrow> bool" where
  "first_failure env ev hs w k e =
     (k < length hs \<and>
      (\<forall>j<k. snd (handler env (hs ! j) ev
                      (fold (\<lambda>h x. fst (handler env h ev x)) (take j hs) w)) = None) \<and>
      snd (handler env (hs ! k) ev (fold (\<lambda>h x. fst (handler env h ev x)) (take k hs) w)) = Some e)"

text \<open>
  The message check fails with \<open>e\<close>: the fetch of the mail client raises \<open>e\<close>, or it gives a
  message that is dispatched and the handler of \<^verbatim>\<open>NewMessage\<close> at position \<open>k\<close> is the first
  that raises, with \<open>e\<close>. The same for the domain check.
\<close>

definition msg_failure :: "'w env \<Rightarrow> tick_input \<Rightarrow> 'w server \<Rightarrow> nat \<Rightarrow> exc \<Rightarrow> bool" where
  "msg_failure env inp s k e =
     (case messages_in inp of
        Raises e' \<Rightarrow> map_of (handlers s) NewMessageT \<noteq> None \<and> e' = e
      | Returns None \<Rightarrow> False
      | Returns (Some v) \<Rightarrow>
          (case messages v of
             [] \<Rightarrow> False
           | m # ms \<Rightarrow>
               differs_msg (last_msg s) m \<and>
               first_failure env (NewMessage m) (handlers_get (handlers s) NewMessageT)
                 (world s) k e))"

definition dom_failure :: "'w env \<Rightarrow> tick_input \<Rightarrow> 'w server \<Rightarrow> nat \<Rightarrow> exc \<Rightarrow> bool" where
  "dom_failure env inp s k e =
     (case domains_in inp of
        Raises e' \<Rightarrow> map_of (handlers s) DomainChangeT \<noteq> None \<and> e' = e
      | Returns None \<Rightarrow> False
      | Returns (Some v) \<Rightarrow>
          (case domains v of
             [] \<Rightarrow> False
           | d # ds \<Rightarrow>
               differs_dom (last_domain s) d \<and>
               first_failure env (DomainChange d) (handlers_get (handlers s) DomainChangeT)
                 (world s) k e))"

text \<open>
  An iteration fails with \<open>e\<close>: after a sleep that ends normally the message check fails
  with \<open>e\<close>, or it returns and the domain check, made in the state it leaves, fails with \<open>e\<close>.
\<close>

definition failure :: "'w env \<Rightarrow> tick_input \<Rightarrow> 'w server \<Rightarrow> nat \<Rightarrow> exc \<Rightarrow> bool" where
  "failure env inp s k e =
     (sleep_in inp = None \<and>
      (msg_failure env inp s k e \<or>
       (case msg_phase env inp (emit (Sleep (sleep_delay (pooling_rate s))) s) of
          Ok s1 \<Rightarrow> dom_failure env inp s1 k e
        | Raise e' s1 \<Rightarrow> False)))"

text \<open>Handlers that raise an exception that is not an \<^verbatim>\<open>Exception\<close>.\<close>

definition cancelling :: "(handler_id \<times> event) list env" where
  "cancelling = \<lparr>handler = (\<lambda>h ev w. (w, Some (OtherBaseException ''CancelledError''))),
                 close_client = (\<lambda>k. None),
                 banner_file = Inr ''banner''\<rparr>"

text \<open>Handlers that raise, and a mail client whose \<^verbatim>\<open>close\<close> raises too.\<close>

definition faulty_close :: "(handler_id \<times> event) list env" where
  "faulty_close = \<lparr>handler = (\<lambda>h ev w. (w, Some (Exception ''boom''))),
                   close_client = (\<lambda>k. Some (Exception ''closed'')),
                   banner_file = Inr ''banner''\<rparr>"

text \<open>Handlers that record their calls; the handler 9 raises after recording.\<close>

definition picky :: "(handler_id \<times> event) list env" where
  "picky = \<lparr>handler = (\<lambda>h ev w. (w @ [(h, ev)], if h = 9 then Some (Exception ''boom'') else None)),
            close_client = (\<lambda>k. None),
            banner_file = Inr ''banner''\<rparr>"

section \<open>Basic facts\<close>

lemma emit_fields [simp]:
  "handlers (emit a s) = handlers s"
  "last_msg (emit a s) = last_msg s"
  "last_domain (emit a s) = last_domain s"
  "world (emit a s) = world s"
  "pooling_rate (emit a s) = pooling_rate s"
  "logging_enabled (emit a s) = logging_enabled s"
  "suppress_errors (emit a s) = suppress_errors s"
  "banner_enabled (emit a s) = banner_enabled s"
  "banner_path (emit a s) = banner_path s"
  "trace (emit a s) = trace s @ [a]"
  by (simp_all add: emit_def)

lemma log_fields [simp]:
  "handlers (log t v s) = handlers s"
  "last_msg (log t v s) = last_msg s"
  "last_domain (log t v s) = last_domain s"
  "world (log t v s) = world s"
  "pooling_rate (log t v s) = pooling_rate s"
  "logging_enabled (log t v s) = logging_enabled s"
  "suppress_errors (log t v s) = suppress_errors s"
  "banner_enabled (log t v s) = banner_enabled s"
  "banner_path (log t v s) = banner_path s"
  "trace (log t v s) = trace s @ log_lines (logging_enabled s) (suppress_errors s) t v"
  by (simp_all add: log_def)

lemma init_fields [simp]:
  "handlers (init r b p su lg w) = []"
  "last_msg (init r b p su lg w) = []"
  "last_domain (init r b p su lg w) = []"
  "world (init r b p su lg w) = w"
  "trace (init r b p su lg w) = []"
  "pooling_rate (init r b p su lg w) = r"
  "logging_enabled (init r b p su lg w) = lg"
  "suppress_errors (init r b p su lg w) = su"
  "banner_enabled (init r b p su lg w) = b"
  "banner_path (init r b p su lg w) = p"
  by (simp_all add: init_def)

lemma after_handlers_fields [simp]:
  "handlers (after_handlers env ev hs s) = handlers s"
  "last_msg (after_handlers env ev hs s) = last_msg s"
  "last_domain (after_handlers env ev hs s) = last_domain s"
  "pooling_rate (after_handlers env ev hs s) = pooling_rate s"
  "logging_enabled (after_handlers env ev hs s) = logging_enabled s"
  "suppress_errors (after_handlers env ev hs s) = suppress_errors s"
  "banner_enabled (after_handlers env ev hs s) = banner_enabled s"
  "banner_path (after_handlers env ev hs s) = banner_path s"
  "world (after_handlers env ev hs s) = fold (\<lambda>h w. fst (handler env h ev w)) hs (world s)"
  "trace (after_handlers env ev hs s) = trace s @ map (\<lambda>h. Invoke h ev) hs"
  by (simp_all add: after_handlers_def)

subsection \<open>Registry\<close>

lemma on_new_message_subscribe: "on_new_message h s = subscribe NewMessageT h s"
  by (simp add: on_new_message_def subscribe_def)

lemma on_new_domain_subscribe: "on_new_domain h s = subscribe DomainChangeT h s"
  by (simp add: on_new_domain_def subscribe_def)

lemma subscribe_fields [simp]:
  "last_msg (subscribe t h s) = last_msg s"
  "last_domain (subscribe t h s) = last_domain s"
  "world (subscribe t h s) = world s"
  "trace (subscribe t h s) = trace s"
  "pooling_rate (subscribe t h s) = pooling_rate s"
  "logging_enabled (subscribe t h s) = logging_enabled s"
  "suppress_errors (subscribe t h s) = suppress_errors s"
  "banner_enabled (subscribe t h s) = banner_enabled s"
  "banner_path (subscribe t h s) = banner_path s"
  by (simp_all add: subscribe_def Let_def)

lemma handlers_get_Nil [simp]: "handlers_get [] t = []"
  by (simp add: handlers_get_def)

lemma handlers_get_subscribe:
  "handlers_get (handlers (subscribe t h s)) t' =
     handlers_get (handlers s) t' @ (if t' = t then [h] else [])"
  by (auto simp: subscribe_def handlers_get_def Let_def map_of_map_entry update_conv'
           split: option.splits)

lemma handlers_get_register_all:
  "handlers_get (handlers (register_all regs s)) t =
     handlers_get (handlers s) t @ registered_for t regs"
proof (induction regs arbitrary: s)
  case Nil
  show ?case by (simp add: register_all_def registered_for_def)
next
  case (Cons r regs)
  have "register_all (r # regs) s = register_all regs (subscribe (fst r) (snd r) s)"
    by (simp add: register_all_def)
  then show ?case
    using Cons.IH [of "subscribe (fst r) (snd r) s"]
    by (simp add: handlers_get_subscribe registered_for_def)
qed

lemma register_all_fields [simp]:
  "last_msg (register_all regs s) = last_msg s"
  "last_domain (register_all regs s) = last_domain s"
  "world (register_all regs s) = world s"
  "trace (register_all regs s) = trace s"
  by (induction regs arbitrary: s) (simp_all add: register_all_def)

subsection \<open>Dispatcher\<close>

lemma dispatch_loop_Ok:
  "dispatch_loop env ev hs s = Ok s' \<Longrightarrow> s' = after_handlers env ev hs s"
proof (induction hs arbitrary: s)
  case Nil
  then show ?case by (simp add: after_handlers_def)
next
  case (Cons h hs)
  let ?s2 = "(emit (Invoke h ev) s)\<lparr>world := fst (handler env h ev (world s))\<rparr>"
  from Cons.prems have "dispatch_loop env ev hs ?s2 = Ok s'"
    by (simp add: Let_def split: option.splits)
  then have "s' = after_handlers env ev hs ?s2" by (rule Cons.IH)
  then show ?case by (simp add: after_handlers_def emit_def)
qed

lemma dispatch_loop_Raise:
  "dispatch_loop env ev hs s = Raise e s' \<Longrightarrow>
     \<exists>k < length hs. s' = after_handlers env ev (take (Suc k) hs) s \<and>
       snd (handler env (hs ! k) ev (world (after_handlers env ev (take k hs) s))) = Some e"
proof (induction hs arbitrary: s)
  case Nil
  then show ?case by simp
next
  case (Cons h hs)
  let ?r = "snd (handler env h ev (world s))"
  show ?case
  proof (cases ?r)
    case None
    let ?s2 = "(emit (Invoke h ev) s)\<lparr>world := fst (handler env h ev (world s))\<rparr>"
    from Cons.prems None have "dispatch_loop env ev hs ?s2 = Raise e s'"
      by (simp add: Let_def)
    from Cons.IH [OF this] obtain k where k: "k < length hs"
      "s' = after_handlers env ev (take (Suc k) hs) ?s2"
      "snd (handler env (hs ! k) ev (world (after_handlers env ev (take k hs) ?s2))) = Some e"
      by blast
    have "\<And>l. after_handlers env ev l ?s2 = after_handlers env ev (h # l) s"
      by (simp add: after_handlers_def emit_def)
    with k show ?thesis by (intro exI [of _ "Suc k"]) simp
  next
    case (Some e')
    with Cons.prems show ?thesis
      by (intro exI [of _ 0]) (auto simp: Let_def after_handlers_def emit_def)
  qed
qed

lemma dispatch_Ok:
  "dispatch env ev s = Ok s' \<Longrightarrow>
     s' = after_handlers env ev (handlers_get (handlers s) (type_of ev)) s"
  unfolding dispatch_def by (rule dispatch_loop_Ok)

lemma dispatch_Raise:
  "dispatch env ev s = Raise e s' \<Longrightarrow>
     \<exists>k < length (handlers_get (handlers s) (type_of ev)).
        s' = after_handlers env ev (take (Suc k) (handlers_get (handlers s) (type_of ev))) s \<and>
        snd (handler env (handlers_get (handlers s) (type_of ev) ! k) ev
               (world (after_handlers env ev (take k (handlers_get (handlers s) (type_of ev))) s)))
          = Some e"
  unfolding dispatch_def by (rule dispatch_loop_Raise)

lemma dispatch_RaiseD:
  "dispatch env ev s = Raise e s' \<Longrightarrow>
     \<exists>k. s' = after_handlers env ev (take k (handlers_get (handlers s) (type_of ev))) s"
  using dispatch_Raise [of env ev s e s'] by blast

subsection \<open>Change detectors\<close>

lemma log_lines_msg: "list_all is_msg_action (log_lines lg su (ReceivedFrom a) sev)"
  by (simp add: log_lines_def)

lemma log_lines_dom: "list_all is_dom_action (log_lines lg su (DomainChanged a) sev)"
  by (simp add: log_lines_def)

lemma invoke_msg: "list_all is_msg_action (map (\<lambda>h. Invoke h (NewMessage m)) hs)"
  by (induction hs) simp_all

lemma invoke_dom: "list_all is_dom_action (map (\<lambda>h. Invoke h (DomainChange d)) hs)"
  by (induction hs) simp_all

lemma check_for_new_messages_fields [simp]:
  "last_domain (state_of (check_for_new_messages env r s)) = last_domain s"
  "handlers (state_of (check_for_new_messages env r s)) = handlers s"
  "pooling_rate (state_of (check_for_new_messages env r s)) = pooling_rate s"
  "logging_enabled (state_of (check_for_new_messages env r s)) = logging_enabled s"
  "suppress_errors (state_of (check_for_new_messages env r s)) = suppress_errors s"
  "banner_enabled (state_of (check_for_new_messages env r s)) = banner_enabled s"
  "banner_path (state_of (check_for_new_messages env r s)) = banner_path s"
  unfolding check_for_new_messages_def Let_def
  by (auto split: fetch.splits option.splits list.splits result.splits
           dest!: dispatch_Ok dispatch_RaiseD)

lemma check_for_new_domain_fields [simp]:
  "last_msg (state_of (check_for_new_domain env r s)) = last_msg s"
  "handlers (state_of (check_for_new_domain env r s)) = handlers s"
  "pooling_rate (state_of (check_for_new_domain env r s)) = pooling_rate s"
  "logging_enabled (state_of (check_for_new_domain env r s)) = logging_enabled s"
  "suppress_errors (state_of (check_for_new_domain env r s)) = suppress_errors s"
  "banner_enabled (state_of (check_for_new_domain env r s)) = banner_enabled s"
  "banner_path (state_of (check_for_new_domain env r s)) = banner_path s"
  unfolding check_for_new_domain_def Let_def
  by (auto split: fetch.splits option.splits list.splits result.splits
           dest!: dispatch_Ok dispatch_RaiseD)

lemma check_for_new_messages_slot:
  "length (last_msg s) \<le> 1 \<Longrightarrow> length (last_msg (state_of (check_for_new_messages env r s))) \<le> 1"
  unfolding check_for_new_messages_def Let_def
  by (auto split: fetch.splits option.splits list.splits result.splits
           dest!: dispatch_Ok dispatch_RaiseD)

lemma check_for_new_domain_slot:
  "length (last_domain s) \<le> 1 \<Longrightarrow> length (last_domain (state_of (check_for_new_domain env r s))) \<le> 1"
  unfolding check_for_new_domain_def Let_def
  by (auto split: fetch.splits option.splits list.splits result.splits
           dest!: dispatch_Ok dispatch_RaiseD)

lemma check_for_new_messages_emits:
  "\<exists>out. trace (state_of (check_for_new_messages env r s)) = trace s @ out \<and> list_all is_msg_action out"
  unfolding check_for_new_messages_def Let_def
  by (auto split: fetch.splits option.splits list.splits result.splits
           dest!: dispatch_Ok dispatch_RaiseD simp: log_lines_msg invoke_msg)

lemma check_for_new_domain_emits:
  "\<exists>out. trace (state_of (check_for_new_domain env r s)) = trace s @ out \<and> list_all is_dom_action out"
  unfolding check_for_new_domain_def Let_def
  by (auto split: fetch.splits option.splits list.splits result.splits
           dest!: dispatch_Ok dispatch_RaiseD simp: log_lines_dom invoke_dom)

subsection \<open>The loop body\<close>

lemma close_fields [simp]:
  "handlers (state_of (close env s)) = handlers s"
  "last_msg (state_of (close env s)) = last_msg s"
  "last_domain (state_of (close env s)) = last_domain s"
  "world (state_of (close env s)) = world s"
  "pooling_rate (state_of (close env s)) = pooling_rate s"
  "logging_enabled (state_of (close env s)) = logging_enabled s"
  "suppress_errors (state_of (close env s)) = suppress_errors s"
  "banner_enabled (state_of (close env s)) = banner_enabled s"
  "banner_path (state_of (close env s)) = banner_path s"
  "trace (state_of (close env s)) = trace s @ [Close]"
  by (simp_all add: close_def split: option.splits)

lemma tick_phases:
  "tick env inp s =
     (case sleep_in inp of
        Some e \<Rightarrow> Raise e (emit (Sleep (sleep_delay (pooling_rate s))) s)
      | None \<Rightarrow>
         (case msg_phase env inp (emit (Sleep (sleep_delay (pooling_rate s))) s) of
            Raise e s1 \<Rightarrow> Raise e s1
          | Ok s1 \<Rightarrow>
              (case dom_phase env inp s1 of
                 Raise e s2 \<Rightarrow> Raise e s2
               | Ok s2 \<Rightarrow> end_phase env s2)))"
  unfolding tick_def msg_phase_def dom_phase_def end_phase_def Let_def by simp

lemma msg_phase_fields [simp]:
  "last_domain (state_of (msg_phase env inp s)) = last_domain s"
  "handlers (state_of (msg_phase env inp s)) = handlers s"
  "pooling_rate (state_of (msg_phase env inp s)) = pooling_rate s"
  "logging_enabled (state_of (msg_phase env inp s)) = logging_enabled s"
  "suppress_errors (state_of (msg_phase env inp s)) = suppress_errors s"
  "banner_enabled (state_of (msg_phase env inp s)) = banner_enabled s"
  "banner_path (state_of (msg_phase env inp s)) = banner_path s"
  by (simp_all add: msg_phase_def)

lemma dom_phase_fields [simp]:
  "last_msg (state_of (dom_phase env inp s)) = last_msg s"
  "handlers (state_of (dom_phase env inp s)) = handlers s"
  "pooling_rate (state_of (dom_phase env inp s)) = pooling_rate s"
  "logging_enabled (state_of (dom_phase env inp s)) = logging_enabled s"
  "suppress_errors (state_of (dom_phase env inp s)) = suppress_errors s"
  "banner_enabled (state_of (dom_phase env inp s)) = banner_enabled s"
  "banner_path (state_of (dom_phase env inp s)) = banner_path s"
  by (simp_all add: dom_phase_def)

lemma state_of_close_case:
  "state_of (case close env s of Raise e s3 \<Rightarrow> Raise e s3 | Ok s3 \<Rightarrow> Raise e' s3) = state_of (close env s)"
  by (simp split: result.splits)

lemma end_phase_fields [simp]:
  "last_msg (state_of (end_phase env s)) = last_msg s"
  "last_domain (state_of (end_phase env s)) = last_domain s"
  "handlers (state_of (end_phase env s)) = handlers s"
  "world (state_of (end_phase env s)) = world s"
  "pooling_rate (state_of (end_phase env s)) = pooling_rate s"
  "logging_enabled (state_of (end_phase env s)) = logging_enabled s"
  "suppress_errors (state_of (end_phase env s)) = suppress_errors s"
  "banner_enabled (state_of (end_phase env s)) = banner_enabled s"
  "banner_path (state_of (end_phase env s)) = banner_path s"
  "trace (state_of (end_phase env s)) = trace s @ (if handlers s = [] then [Close] else [])"
  by (simp_all add: end_phase_def state_of_close_case)

lemma msg_phase_emits:
  "\<exists>out. trace (state_of (msg_phase env inp s)) = trace s @ out \<and> list_all is_msg_action out"
  using check_for_new_messages_emits [of env "messages_in inp" s]
  by (auto simp: msg_phase_def)

lemma dom_phase_emits:
  "\<exists>out. trace (state_of (dom_phase env inp s)) = trace s @ out \<and> list_all is_dom_action out"
  using check_for_new_domain_emits [of env "domains_in inp" s]
  by (auto simp: dom_phase_def)

lemma tick_emits:
  "\<exists>A B C. trace (state_of (tick env inp s)) =
             trace s @ Sleep (sleep_delay (pooling_rate s)) # A @ B @ C \<and>
           list_all is_msg_action A \<and> list_all is_dom_action B \<and> (C = [] \<or> C = [Close])"
proof -
  let ?s0 = "emit (Sleep (sleep_delay (pooling_rate s))) s"
  let ?sl = "sleep_in inp"
  show ?thesis
  proof (cases ?sl)
    case (Some e)
    then have "trace (state_of (tick env inp s)) = trace s @ Sleep (sleep_delay (pooling_rate s)) # [] @ [] @ []"
      by (simp add: tick_phases)
    then show ?thesis by (intro exI [of _ "[]"]) simp
  next
    case None
    obtain A where A: "trace (state_of (msg_phase env inp ?s0)) = trace ?s0 @ A" "list_all is_msg_action A"
      using msg_phase_emits by blast
    let ?r1 = "msg_phase env inp ?s0"
    show ?thesis
    proof (cases ?r1)
      case (Raise e s1)
      with None A have "trace (state_of (tick env inp s)) = trace s @ Sleep (sleep_delay (pooling_rate s)) # A @ [] @ []"
        by (simp add: tick_phases)
      with A(2) show ?thesis by (intro exI [of _ A] exI [of _ "[]"]) simp
    next
      case (Ok s1)
      obtain B where B: "trace (state_of (dom_phase env inp s1)) = trace s1 @ B" "list_all is_dom_action B"
        using dom_phase_emits by blast
      let ?r2 = "dom_phase env inp s1"
      from Ok A have s1: "trace s1 = trace s @ Sleep (sleep_delay (pooling_rate s)) # A" by simp
      show ?thesis
      proof (cases ?r2)
        case (Raise e s2)
        with None Ok B s1 have "trace (state_of (tick env inp s)) = trace s @ Sleep (sleep_delay (pooling_rate s)) # A @ B @ []"
          by (simp add: tick_phases)
        with A(2) B(2) show ?thesis by (intro exI [of _ A] exI [of _ B] exI [of _ "[]"]) simp
      next
        case Ok2: (Ok s2)
        with None Ok B s1 have "trace (state_of (tick env inp s)) =
            trace s @ Sleep (sleep_delay (pooling_rate s)) # A @ B @ (if handlers s2 = [] then [Close] else [])"
          by (simp add: tick_phases)
        with A(2) B(2) show ?thesis
          by (intro exI [of _ A] exI [of _ B] exI [of _ "if handlers s2 = [] then [Close] else []"]) simp
      qed
    qed
  qed
qed

lemma tick_cases [case_names Interrupted MsgRaise DomRaise Finished]:
  fixes s :: "'w server"
  assumes "\<And>e. sleep_in inp = Some e \<Longrightarrow>
              tick env inp s = Raise e (emit (Sleep (sleep_delay (pooling_rate s))) s) \<Longrightarrow> P"
    and "\<And>e s1. sleep_in inp = None \<Longrightarrow>
              msg_phase env inp (emit (Sleep (sleep_delay (pooling_rate s))) s) = Raise e s1 \<Longrightarrow>
              tick env inp s = Raise e s1 \<Longrightarrow> P"
    and "\<And>e s1 s2. sleep_in inp = None \<Longrightarrow>
              msg_phase env inp (emit (Sleep (sleep_delay (pooling_rate s))) s) = Ok s1 \<Longrightarrow>
              dom_phase env inp s1 = Raise e s2 \<Longrightarrow>
              tick env inp s = Raise e s2 \<Longrightarrow> P"
    and "\<And>s1 s2. sleep_in inp = None \<Longrightarrow>
              msg_phase env inp (emit (Sleep (sleep_delay (pooling_rate s))) s) = Ok s1 \<Longrightarrow>
              dom_phase env inp s1 = Ok s2 \<Longrightarrow>
              tick env inp s = end_phase env s2 \<Longrightarrow> P"
  shows P
proof -
  let ?sl = "sleep_in inp"
  let ?r1 = "msg_phase env inp (emit (Sleep (sleep_delay (pooling_rate s))) s)"
  show P
  proof (cases ?sl)
    case (Some e)
    then show P using assms(1) by (simp add: tick_phases)
  next
    case None
    show P
    proof (cases ?r1)
      case (Raise e s1)
      with None show P using assms(2) by (simp add: tick_phases)
    next
      case (Ok s1)
      let ?r2 = "dom_phase env inp s1"
      show P
      proof (cases ?r2)
        case (Raise e s2)
        with None Ok show P using assms(3) by (simp add: tick_phases)
      next
        case Ok2: (Ok s2)
        with None Ok show P using assms(4) by (simp add: tick_phases)
      qed
    qed
  qed
qed

lemma msg_phase_D:
  "msg_phase env inp s = Ok s1 \<or> msg_phase env inp s = Raise e s1 \<Longrightarrow> state_of (msg_phase env inp s) = s1"
  by auto

lemma dom_phase_D:
  "dom_phase env inp s = Ok s1 \<or> dom_phase env inp s = Raise e s1 \<Longrightarrow> state_of (dom_phase env inp s) = s1"
  by auto


lemma tick_fields [simp]:
  "handlers (state_of (tick env inp s)) = handlers s"
  "pooling_rate (state_of (tick env inp s)) = pooling_rate s"
  "logging_enabled (state_of (tick env inp s)) = logging_enabled s"
  "suppress_errors (state_of (tick env inp s)) = suppress_errors s"
  "banner_enabled (state_of (tick env inp s)) = banner_enabled s"
  "banner_path (state_of (tick env inp s)) = banner_path s"
proof -
  let ?s0 = "emit (Sleep (sleep_delay (pooling_rate s))) s"
  let ?g = "\<lambda>x. (handlers x, pooling_rate x, logging_enabled x, suppress_errors x,
                  banner_enabled x, banner_path x)"
  have m: "?g (state_of (msg_phase env inp ?s0)) = ?g s" by simp
  have d: "?g (state_of (dom_phase env inp s1)) = ?g s1" for s1 by simp
  have e: "?g (state_of (end_phase env s2)) = ?g s2" for s2 by simp
  have "?g (state_of (tick env inp s)) = ?g s"
  proof (cases env inp s rule: tick_cases)
    case (Interrupted e)
    then show ?thesis by simp
  next
    case (MsgRaise e s1)
    from MsgRaise(2) have "state_of (msg_phase env inp ?s0) = s1" by simp
    with m MsgRaise(3) show ?thesis by simp
  next
    case (DomRaise e s1 s2)
    from DomRaise(2) have 1: "state_of (msg_phase env inp ?s0) = s1" by simp
    from DomRaise(3) have 2: "state_of (dom_phase env inp s1) = s2" by simp
    from m 1 have "?g s1 = ?g s" by simp
    moreover from d [of s1] 2 have "?g s2 = ?g s1" by simp
    ultimately show ?thesis using DomRaise(4) by simp
  next
    case (Finished s1 s2)
    from Finished(2) have 1: "state_of (msg_phase env inp ?s0) = s1" by simp
    from Finished(3) have 2: "state_of (dom_phase env inp s1) = s2" by simp
    from m 1 have "?g s1 = ?g s" by simp
    moreover from d [of s1] 2 have "?g s2 = ?g s1" by simp
    ultimately show ?thesis using Finished(4) e [of s2] by simp
  qed
  then show "handlers (state_of (tick env inp s)) = handlers s"
    "pooling_rate (state_of (tick env inp s)) = pooling_rate s"
    "logging_enabled (state_of (tick env inp s)) = logging_enabled s"
    "suppress_errors (state_of (tick env inp s)) = suppress_errors s"
    "banner_enabled (state_of (tick env inp s)) = banner_enabled s"
    "banner_path (state_of (tick env inp s)) = banner_path s"
    by simp_all
qed

lemma msg_phase_slots: "slots_ok s \<Longrightarrow> slots_ok (state_of (msg_phase env inp s))"
  using check_for_new_messages_slot [of s env "messages_in inp"]
  by (simp add: slots_ok_def msg_phase_def)

lemma dom_phase_slots: "slots_ok s \<Longrightarrow> slots_ok (state_of (dom_phase env inp s))"
  using check_for_new_domain_slot [of s env "domains_in inp"]
  by (simp add: slots_ok_def dom_phase_def)

lemma tick_slots:
  assumes "slots_ok s"
  shows "slots_ok (state_of (tick env inp s))"
proof -
  let ?s0 = "emit (Sleep (sleep_delay (pooling_rate s))) s"
  have s0: "slots_ok ?s0" using assms by (simp add: slots_ok_def)
  have m: "slots_ok (state_of (msg_phase env inp ?s0))" by (rule msg_phase_slots [OF s0])
  show ?thesis
  proof (cases env inp s rule: tick_cases)
    case (Interrupted e)
    with s0 show ?thesis by simp
  next
    case (MsgRaise e s1)
    with m show ?thesis by simp
  next
    case (DomRaise e s1 s2)
    from m DomRaise(2) have "slots_ok s1" by simp
    from dom_phase_slots [OF this, of env inp] DomRaise(3,4) show ?thesis by simp
  next
    case (Finished s1 s2)
    from m Finished(2) have "slots_ok s1" by simp
    from dom_phase_slots [OF this, of env inp] Finished(3) have "slots_ok s2" by simp
    then show ?thesis using Finished(4) by (simp add: slots_ok_def)
  qed
qed


lemma sleeps_append [simp]: "sleeps (a @ b) = sleeps a @ sleeps b"
  by (induction a rule: sleeps.induct) simp_all

lemma sleeps_msg: "list_all is_msg_action A \<Longrightarrow> sleeps A = []"
  by (induction A rule: sleeps.induct) simp_all

lemma sleeps_dom: "list_all is_dom_action A \<Longrightarrow> sleeps A = []"
  by (induction A rule: sleeps.induct) simp_all

lemma tick_sleeps:
  "sleeps (trace (state_of (tick env inp s))) = sleeps (trace s) @ [sleep_delay (pooling_rate s)]"
proof -
  obtain A B C where t: "trace (state_of (tick env inp s)) =
             trace s @ Sleep (sleep_delay (pooling_rate s)) # A @ B @ C"
    and A: "list_all is_msg_action A" and B: "list_all is_dom_action B"
    and C: "C = [] \<or> C = [Close]"
    using tick_emits [of env inp s] by blast
  from C have "sleeps C = []" by auto
  with t A B show ?thesis by (simp add: sleeps_msg sleeps_dom)
qed

lemma loop_not_Returned: "loop env inps s \<noteq> Returned s'"
  by (induction inps arbitrary: s) (simp_all split: result.splits)

lemma loop_Cons_Ok: "tick env inp s = Ok s1 \<Longrightarrow> loop env (inp # inps) s = loop env inps s1"
  by simp

lemma loop_Cons_Raise: "tick env inp s = Raise e s1 \<Longrightarrow> loop env (inp # inps) s = Raised e s1"
  by simp

lemma loop_slots: "slots_ok s \<Longrightarrow> slots_ok (final (loop env inps s))"
proof (induction inps arbitrary: s)
  case Nil
  then show ?case by simp
next
  case (Cons inp inps)
  let ?r = "tick env inp s"
  from Cons.prems have t: "slots_ok (state_of ?r)" by (rule tick_slots)
  show ?case
  proof (cases ?r)
    case (Ok s1)
    with t have "slots_ok s1" by simp
    then have "slots_ok (final (loop env inps s1))" by (rule Cons.IH)
    with Ok show ?thesis by simp
  next
    case (Raise e s1)
    with t show ?thesis by simp
  qed
qed

lemma loop_fields [simp]:
  "handlers (final (loop env inps s)) = handlers s"
  "pooling_rate (final (loop env inps s)) = pooling_rate s"
  "logging_enabled (final (loop env inps s)) = logging_enabled s"
  "suppress_errors (final (loop env inps s)) = suppress_errors s"
proof -
  let ?g = "\<lambda>x. (handlers x, pooling_rate x, logging_enabled x, suppress_errors x)"
  have "?g (final (loop env inps s)) = ?g s"
  proof (induction inps arbitrary: s)
    case Nil
    show ?case by simp
  next
    case (Cons inp inps)
    let ?r = "tick env inp s"
    have t: "?g (state_of ?r) = ?g s" by simp
    show ?case
    proof (cases ?r)
      case (Ok s1)
      with t have "?g s1 = ?g s" by simp
      with Cons.IH [of s1] Ok show ?thesis by simp
    next
      case (Raise e s1)
      with t show ?thesis by simp
    qed
  qed
  then show "handlers (final (loop env inps s)) = handlers s"
    "pooling_rate (final (loop env inps s)) = pooling_rate s"
    "logging_enabled (final (loop env inps s)) = logging_enabled s"
    "suppress_errors (final (loop env inps s)) = suppress_errors s"
    by simp_all
qed

lemma loop_sleeps:
  "\<exists>k \<le> length inps. (inps \<noteq> [] \<longrightarrow> 0 < k) \<and>
     sleeps (trace (final (loop env inps s))) =
       sleeps (trace s) @ replicate k (sleep_delay (pooling_rate s))"
proof (induction inps arbitrary: s)
  case Nil
  show ?case by simp
next
  case (Cons inp inps)
  let ?r = "tick env inp s"
  let ?d = "sleep_delay (pooling_rate s)"
  have t: "sleeps (trace (state_of ?r)) = sleeps (trace s) @ [?d]" by (rule tick_sleeps)
  have p: "pooling_rate (state_of ?r) = pooling_rate s" by simp
  show ?case
  proof (cases ?r)
    case (Ok s1)
    with t p have s1: "sleeps (trace s1) = sleeps (trace s) @ [?d]" "pooling_rate s1 = pooling_rate s"
      by simp_all
    from Cons.IH [of s1] obtain k where k: "k \<le> length inps"
      "sleeps (trace (final (loop env inps s1))) = sleeps (trace s1) @ replicate k (sleep_delay (pooling_rate s1))"
      by blast
    with s1 Ok show ?thesis
      by (intro exI [of _ "Suc k"]) (simp add: replicate_append_same)
  next
    case (Raise e s1)
    with t show ?thesis by (intro exI [of _ "Suc 0"]) simp
  qed
qed

subsection \<open>Runner and entry point\<close>

lemma dispatch_fields [simp]:
  "handlers (state_of (dispatch env ev s)) = handlers s"
  "last_msg (state_of (dispatch env ev s)) = last_msg s"
  "last_domain (state_of (dispatch env ev s)) = last_domain s"
  "pooling_rate (state_of (dispatch env ev s)) = pooling_rate s"
  "logging_enabled (state_of (dispatch env ev s)) = logging_enabled s"
  "suppress_errors (state_of (dispatch env ev s)) = suppress_errors s"
proof -
  let ?r = "dispatch env ev s"
  have "\<exists>hs. state_of ?r = after_handlers env ev hs s"
  proof (cases ?r)
    case (Ok s')
    then show ?thesis using dispatch_Ok [of env ev s s'] by auto
  next
    case (Raise e s')
    then show ?thesis using dispatch_RaiseD [of env ev s e s'] by auto
  qed
  then obtain hs where "state_of ?r = after_handlers env ev hs s" by blast
  then show "handlers (state_of (dispatch env ev s)) = handlers s"
    "last_msg (state_of (dispatch env ev s)) = last_msg s"
    "last_domain (state_of (dispatch env ev s)) = last_domain s"
    "pooling_rate (state_of (dispatch env ev s)) = pooling_rate s"
    "logging_enabled (state_of (dispatch env ev s)) = logging_enabled s"
    "suppress_errors (state_of (dispatch env ev s)) = suppress_errors s"
    by simp_all
qed

lemma banner_fields [simp]:
  "handlers (state_of (banner env s)) = handlers s"
  "last_msg (state_of (banner env s)) = last_msg s"
  "last_domain (state_of (banner env s)) = last_domain s"
  "world (state_of (banner env s)) = world s"
  "pooling_rate (state_of (banner env s)) = pooling_rate s"
  "logging_enabled (state_of (banner env s)) = logging_enabled s"
  "suppress_errors (state_of (banner env s)) = suppress_errors s"
  by (simp_all add: banner_def split: option.splits sum.splits)

lemma startup_fields [simp]:
  "handlers (startup s) = handlers s"
  "last_msg (startup s) = last_msg s"
  "last_domain (startup s) = last_domain s"
  "world (startup s) = world s"
  "pooling_rate (startup s) = pooling_rate s"
  "logging_enabled (startup s) = logging_enabled s"
  "suppress_errors (startup s) = suppress_errors s"
  by (simp_all add: startup_def)

lemma slots_ok_cong:
  "last_msg s' = last_msg s \<Longrightarrow> last_domain s' = last_domain s \<Longrightarrow> slots_ok s' = slots_ok s"
  by (simp add: slots_ok_def)

lemma try_loop_slots:
  assumes "slots_ok s"
  shows "slots_ok (final (try_loop env inps s))"
proof -
  let ?o = "loop env inps (startup s)"
  from assms have "slots_ok (startup s)" by (simp add: slots_ok_def)
  then have l: "slots_ok (final ?o)" by (rule loop_slots)
  show ?thesis
  proof (cases ?o)
    case (Returned s1)
    with l show ?thesis by (simp add: try_loop_def)
  next
    case (Running s1)
    with l show ?thesis by (simp add: try_loop_def)
  next
    case (Raised e s1)
    with l have s1: "slots_ok s1" by simp
    then have c: "slots_ok (state_of (close env s1))" by (simp add: slots_ok_def)
    let ?c = "close env s1"
    show ?thesis
    proof (cases ?c)
      case (Ok s2)
      with c Raised s1 show ?thesis by (simp add: try_loop_def slots_ok_def)
    next
      case Raise2: (Raise e' s2)
      with c Raised s1 show ?thesis by (simp add: try_loop_def)
    qed
  qed
qed

lemma runner_slots:
  assumes "slots_ok s"
  shows "slots_ok (final (runner env inps s))"
proof -
  let ?b = "if banner_enabled s = Some True then banner env s else Ok s"
  from assms have b: "slots_ok (state_of ?b)" by (simp add: slots_ok_def)
  show ?thesis
  proof (cases ?b)
    case (Ok s0)
    with b have "slots_ok s0" by simp
    then have "slots_ok (final (try_loop env inps s0))" by (rule try_loop_slots)
    with Ok show ?thesis by (simp add: runner_def)
  next
    case (Raise e s0)
    with b show ?thesis by (simp add: runner_def)
  qed
qed

lemma run_slots:
  assumes "slots_ok s"
  shows "slots_ok (final (run env inps s))"
proof -
  let ?o = "runner env inps s"
  from assms have r: "slots_ok (final ?o)" by (rule runner_slots)
  show ?thesis
  proof (cases ?o)
    case (Returned s1)
    with r show ?thesis by (simp add: run_def)
  next
    case (Running s1)
    with r show ?thesis by (simp add: run_def)
  next
    case (Raised e s1)
    with r show ?thesis by (cases e) (simp_all add: run_def slots_ok_def)
  qed
qed

subsection \<open>One iteration with a single message handler\<close>

lemma invocations_append [simp]: "invocations (a @ b) = invocations a @ invocations b"
  by (induction a rule: invocations.induct) simp_all

lemma invocations_log_lines [simp]: "invocations (log_lines lg su t sev) = []"
  by (simp add: log_lines_def)

lemma invocations_startup [simp]: "invocations (trace (startup s)) = invocations (trace s)"
  by (simp add: startup_def)

lemma tick_msg_new:
  assumes "handlers s = [(NewMessageT, [h])]" "sleep_in inp = None"
    "messages_in inp = Returns (Some v)" "messages v = m # ms"
    "last_msg s = [] \<or> (\<exists>l ls. last_msg s = l # ls \<and> msg_id l \<noteq> msg_id m)"
    "snd (handler env h (NewMessage m) (world s)) = None"
    "message_from m = Some a"
  shows "tick env inp s =
     Ok (log (ReceivedFrom a) INFO
          (after_handlers env (NewMessage m) [h]
            (emit (WriteLastMsg m)
              ((emit GetMessages (emit (Sleep (sleep_delay (pooling_rate s))) s))
                 \<lparr>last_msg := m # tl (last_msg s)\<rparr>))))"
  using assms
  by (auto simp: tick_def check_for_new_messages_def dispatch_def handlers_get_def Let_def
        after_handlers_def emit_def log_def)

lemma tick_msg_anonymous:
  assumes "handlers s = [(NewMessageT, [h])]" "sleep_in inp = None"
    "messages_in inp = Returns (Some v)" "messages v = m # ms"
    "last_msg s = [] \<or> (\<exists>l ls. last_msg s = l # ls \<and> msg_id l \<noteq> msg_id m)"
    "snd (handler env h (NewMessage m) (world s)) = None"
    "message_from m = None"
  shows "tick env inp s =
     Raise attribute_error
          (after_handlers env (NewMessage m) [h]
            (emit (WriteLastMsg m)
              ((emit GetMessages (emit (Sleep (sleep_delay (pooling_rate s))) s))
                 \<lparr>last_msg := m # tl (last_msg s)\<rparr>)))"
  using assms
  by (auto simp: tick_def check_for_new_messages_def dispatch_def handlers_get_def Let_def
        after_handlers_def emit_def log_def)

lemma tick_msg_quiet:
  assumes "handlers s = [(NewMessageT, hs)]" "sleep_in inp = None"
    "messages_in inp = Returns None \<or>
     (\<exists>v. messages_in inp = Returns (Some v) \<and>
       (messages v = [] \<or>
        (\<exists>m ms l ls. messages v = m # ms \<and> last_msg s = l # ls \<and> msg_id l = msg_id m)))"
  shows "tick env inp s = Ok (emit GetMessages (emit (Sleep (sleep_delay (pooling_rate s))) s))"
  using assms
  by (auto simp: tick_def check_for_new_messages_def Let_def)

subsection \<open>Writes of the last-seen slots\<close>

lemma msg_writes_append [simp]: "msg_writes (a @ b) = msg_writes a + msg_writes b"
  by (induction a rule: msg_writes.induct) simp_all

lemma dom_writes_append [simp]: "dom_writes (a @ b) = dom_writes a + dom_writes b"
  by (induction a rule: dom_writes.induct) simp_all

lemma writes_log_lines [simp]:
  "msg_writes (log_lines lg su t sev) = 0" "dom_writes (log_lines lg su t sev) = 0"
  by (simp_all add: log_lines_def)

lemma writes_invoke [simp]:
  "msg_writes (map (\<lambda>h. Invoke h ev) hs) = 0" "dom_writes (map (\<lambda>h. Invoke h ev) hs) = 0"
  by (induction hs) simp_all

lemma msg_writes_dom: "list_all is_dom_action A \<Longrightarrow> msg_writes A = 0"
  by (induction A rule: msg_writes.induct) simp_all

lemma dom_writes_msg: "list_all is_msg_action A \<Longrightarrow> dom_writes A = 0"
  by (induction A rule: dom_writes.induct) simp_all

lemma check_for_new_messages_writes:
  "msg_writes (trace (state_of (check_for_new_messages env r s))) =
     msg_writes (trace s) +
       (case r of Returns (Some v) \<Rightarrow>
          (case messages v of [] \<Rightarrow> 0 | m # ms \<Rightarrow> if differs_msg (last_msg s) m then 1 else 0)
        | Returns None \<Rightarrow> 0 | Raises e \<Rightarrow> 0)"
  unfolding check_for_new_messages_def Let_def differs_msg_def
  by (auto split: fetch.splits option.splits list.splits result.splits
           dest!: dispatch_Ok dispatch_RaiseD)

lemma check_for_new_domain_writes:
  "dom_writes (trace (state_of (check_for_new_domain env r s))) =
     dom_writes (trace s) +
       (case r of Returns (Some v) \<Rightarrow>
          (case domains v of [] \<Rightarrow> 0 | d # ds \<Rightarrow> if differs_dom (last_domain s) d then 1 else 0)
        | Returns None \<Rightarrow> 0 | Raises e \<Rightarrow> 0)"
  unfolding check_for_new_domain_def Let_def differs_dom_def
  by (auto split: fetch.splits option.splits list.splits result.splits
           dest!: dispatch_Ok dispatch_RaiseD)


lemma tick_msg_writes:
  assumes "sleep_in inp = None"
  shows "msg_writes (trace (state_of (tick env inp s))) =
     msg_writes (trace (state_of (msg_phase env inp (emit (Sleep (sleep_delay (pooling_rate s))) s))))"
proof -
  let ?s0 = "emit (Sleep (sleep_delay (pooling_rate s))) s"
  have d: "msg_writes (trace (state_of (dom_phase env inp s1))) = msg_writes (trace s1)" for s1
    using dom_phase_emits [of env inp s1] by (auto simp: msg_writes_dom)
  show ?thesis
  proof (cases env inp s rule: tick_cases)
    case (Interrupted e)
    with assms show ?thesis by simp
  next
    case (MsgRaise e s1)
    then show ?thesis by simp
  next
    case (DomRaise e s1 s2)
    with d [of s1] show ?thesis by simp
  next
    case (Finished s1 s2)
    with d [of s1] show ?thesis by simp
  qed
qed

lemma tick_dom_writes:
  assumes "sleep_in inp = None"
    and "msg_phase env inp (emit (Sleep (sleep_delay (pooling_rate s))) s) = Ok s1"
  shows "dom_writes (trace (state_of (tick env inp s))) =
           dom_writes (trace (state_of (dom_phase env inp s1))) \<and>
         dom_writes (trace s1) = dom_writes (trace s) \<and> last_domain s1 = last_domain s \<and>
         handlers s1 = handlers s"
proof -
  let ?s0 = "emit (Sleep (sleep_delay (pooling_rate s))) s"
  from assms(2) have s1: "state_of (msg_phase env inp ?s0) = s1" by simp
  have m: "dom_writes (trace s1) = dom_writes (trace s)"
    using msg_phase_emits [of env inp ?s0] s1 by (auto simp: dom_writes_msg)
  have f: "last_domain s1 = last_domain s" "handlers s1 = handlers s"
    using msg_phase_fields(1,2) [of env inp ?s0] s1 by simp_all
  have "dom_writes (trace (state_of (tick env inp s))) =
           dom_writes (trace (state_of (dom_phase env inp s1)))"
  proof (cases env inp s rule: tick_cases)
    case (Interrupted e)
    with assms show ?thesis by simp
  next
    case (MsgRaise e s1')
    with assms show ?thesis by simp
  next
    case (DomRaise e s1' s2)
    with assms show ?thesis by simp
  next
    case (Finished s1' s2)
    with assms show ?thesis by simp
  qed
  with m f show ?thesis by simp
qed

subsection \<open>The slots after an iteration\<close>

lemma check_for_new_messages_last_msg:
  "last_msg (state_of (check_for_new_messages env r s)) =
     (case r of
        Returns (Some v) \<Rightarrow>
          (case messages v of
             [] \<Rightarrow> last_msg s
           | m # ms \<Rightarrow> if differs_msg (last_msg s) m then m # tl (last_msg s) else last_msg s)
      | Returns None \<Rightarrow> last_msg s
      | Raises e \<Rightarrow> last_msg s)"
  unfolding check_for_new_messages_def Let_def differs_msg_def
  by (auto split: fetch.splits option.splits list.splits result.splits
           dest!: dispatch_Ok dispatch_RaiseD)

lemma check_for_new_domain_last_domain:
  "last_domain (state_of (check_for_new_domain env r s)) =
     (case r of
        Returns (Some v) \<Rightarrow>
          (case domains v of
             [] \<Rightarrow> last_domain s
           | d # ds \<Rightarrow>
               if differs_dom (last_domain s) d then d # tl (last_domain s) else last_domain s)
      | Returns None \<Rightarrow> last_domain s
      | Raises e \<Rightarrow> last_domain s)"
  unfolding check_for_new_domain_def Let_def differs_dom_def
  by (auto split: fetch.splits option.splits list.splits result.splits
           dest!: dispatch_Ok dispatch_RaiseD)

lemma tick_last_msg:
  assumes "sleep_in inp = None"
  shows "last_msg (state_of (tick env inp s)) =
     last_msg (state_of (msg_phase env inp (emit (Sleep (sleep_delay (pooling_rate s))) s)))"
proof (cases env inp s rule: tick_cases)
  case (Interrupted e)
  with assms show ?thesis by simp
next
  case (MsgRaise e s1)
  then show ?thesis by simp
next
  case (DomRaise e s1 s2)
  have "last_msg (state_of (dom_phase env inp s1)) = last_msg s1" by simp
  with DomRaise show ?thesis by simp
next
  case (Finished s1 s2)
  have "last_msg (state_of (end_phase env s2)) = last_msg s2" by simp
  moreover have "last_msg (state_of (dom_phase env inp s1)) = last_msg s1" by simp
  ultimately show ?thesis using Finished by simp
qed

lemma tick_last_domain:
  assumes "sleep_in inp = None"
    and "msg_phase env inp (emit (Sleep (sleep_delay (pooling_rate s))) s) = Ok s1"
  shows "last_domain (state_of (tick env inp s)) = last_domain (state_of (dom_phase env inp s1))"
proof (cases env inp s rule: tick_cases)
  case (Interrupted e)
  with assms show ?thesis by simp
next
  case (MsgRaise e s1')
  with assms show ?thesis by simp
next
  case (DomRaise e s1' s2)
  with assms show ?thesis by simp
next
  case (Finished s1' s2)
  have "last_domain (state_of (end_phase env s2)) = last_domain s2" by simp
  with Finished assms show ?thesis by simp
qed

subsection \<open>A check that finds a change and returns\<close>



subsection \<open>An iteration that raises\<close>

lemma loop_append:
  "loop env pre s = Running sk \<Longrightarrow> loop env (pre @ rest) s = loop env rest sk"
proof (induction pre arbitrary: s)
  case Nil
  then show ?case by simp
next
  case (Cons i pre)
  let ?r = "tick env i s"
  show ?case
  proof (cases ?r)
    case (Ok s1)
    with Cons.prems have "loop env pre s1 = Running sk" by simp
    from Cons.IH [OF this] Ok show ?thesis by simp
  next
    case (Raise e s1)
    with Cons.prems show ?thesis by simp
  qed
qed

lemma prints_append [simp]: "prints (a @ b) = prints a @ prints b"
  by (induction a rule: prints.induct) simp_all

lemma prints_log_lines:
  "prints (log_lines lg su t INFO) =
     (if lg = Some True
      then (InfoLine, t) # (if su = Some False then [] else [(UnrecognizedLine, t)])
      else [])"
  by (simp add: log_lines_def)

lemma first_failure_Nil [simp]: "\<not> first_failure env ev [] w k e"
  by (simp add: first_failure_def)

lemma first_failure_Cons:
  "first_failure env ev (h # hs) w k e =
     (case snd (handler env h ev w) of
        Some e' \<Rightarrow> k = 0 \<and> e' = e
      | None \<Rightarrow> (case k of 0 \<Rightarrow> False
                 | Suc k' \<Rightarrow> first_failure env ev hs (fst (handler env h ev w)) k' e))"
proof (cases k)
  case 0
  then show ?thesis by (auto simp: first_failure_def split: option.splits)
next
  case (Suc k')
  have a: "(\<forall>j<Suc k'. P j) = (P 0 \<and> (\<forall>j<k'. P (Suc j)))" for P
    by (auto simp: less_Suc_eq_0_disj)
  show ?thesis
    unfolding Suc first_failure_def a by (auto split: option.splits)
qed

lemma first_failure_dispatch_loop:
  "first_failure env ev hs (world s) k e \<Longrightarrow>
     dispatch_loop env ev hs s = Raise e (after_handlers env ev (take (Suc k) hs) s)"
proof (induction hs arbitrary: s k)
  case Nil
  then show ?case by simp
next
  case (Cons h hs)
  let ?r = "snd (handler env h ev (world s))"
  let ?s2 = "(emit (Invoke h ev) s)\<lparr>world := fst (handler env h ev (world s))\<rparr>"
  have ah: "after_handlers env ev l ?s2 = after_handlers env ev (h # l) s" for l
    by (simp add: after_handlers_def emit_def)
  show ?case
  proof (cases ?r)
    case None
    with Cons.prems obtain k' where k: "k = Suc k'"
      and ff: "first_failure env ev hs (fst (handler env h ev (world s))) k' e"
      by (auto simp: first_failure_Cons split: nat.splits)
    have "first_failure env ev hs (world ?s2) k' e" using ff by (simp add: emit_def)
    from Cons.IH [OF this] None show ?thesis by (simp add: Let_def k ah)
  next
    case (Some e')
    with Cons.prems have "k = 0" "e' = e" by (simp_all add: first_failure_Cons)
    with Some show ?thesis by (simp add: Let_def after_handlers_def emit_def)
  qed
qed

lemma first_failure_registered:
  "first_failure env ev (handlers_get hm t) w k e \<Longrightarrow> map_of hm t \<noteq> None"
  by (auto simp: handlers_get_def first_failure_def split: option.splits)

lemma msg_failure_check:
  "msg_failure env inp s k e \<Longrightarrow>
     map_of (handlers s) NewMessageT \<noteq> None \<and>
     (\<exists>s'. check_for_new_messages env (messages_in inp) s = Raise e s')"
  unfolding msg_failure_def check_for_new_messages_def Let_def differs_msg_def dispatch_def
  by (auto split: fetch.splits option.splits list.splits
      dest: first_failure_registered
      simp: first_failure_dispatch_loop [where s = "emit (WriteLastMsg m) t" for m t, simplified])

lemma dom_failure_check:
  "dom_failure env inp s k e \<Longrightarrow>
     map_of (handlers s) DomainChangeT \<noteq> None \<and>
     (\<exists>s'. check_for_new_domain env (domains_in inp) s = Raise e s')"
  unfolding dom_failure_def check_for_new_domain_def Let_def differs_dom_def dispatch_def
  by (auto split: fetch.splits option.splits list.splits
      dest: first_failure_registered
      simp: first_failure_dispatch_loop [where s = "emit (WriteLastDomain d) t" for d t, simplified])

lemma msg_failure_emit [simp]: "msg_failure env inp (emit a s) k e = msg_failure env inp s k e"
  by (simp add: msg_failure_def split: fetch.splits option.splits list.splits)

lemma failure_tick:
  assumes "failure env inp s k e"
  shows "\<exists>s'. tick env inp s = Raise e s'"
proof -
  let ?s0 = "emit (Sleep (sleep_delay (pooling_rate s))) s"
  let ?r = "msg_phase env inp ?s0"
  from assms have sl: "sleep_in inp = None" by (simp add: failure_def)
  show ?thesis
  proof (cases ?r)
    case (Raise e' s1)
    with assms have "msg_failure env inp ?s0 k e" by (simp add: failure_def)
    from msg_failure_check [OF this] Raise have "e' = e" by (auto simp: msg_phase_def)
    with Raise sl show ?thesis by (simp add: tick_phases)
  next
    case (Ok s1)
    have "\<not> msg_failure env inp ?s0 k e"
      using msg_failure_check [of env inp ?s0 k e] Ok by (auto simp: msg_phase_def)
    with assms Ok have "dom_failure env inp s1 k e" by (simp add: failure_def)
    from dom_failure_check [OF this] obtain s' where "dom_phase env inp s1 = Raise e s'"
      by (auto simp: dom_phase_def)
    with Ok sl show ?thesis by (simp add: tick_phases)
  qed
qed

section \<open>The claims\<close>

text \<open>
  C5. Dispatch invokes the handlers registered for the event's class in the order of their
  registration, each on the world the one before it left, and a handler registered several
  times once per registration. On a server that has had the registrations \<open>regs\<close>, in this
  order, a dispatch that returns has invoked exactly the handlers registered for the class of
  the event, in the order of \<open>regs\<close>; a dispatch that raises has invoked a non-empty prefix of
  them, and the last one invoked raised. The methods \<^verbatim>\<open>on_new_message\<close> and
  \<^verbatim>\<open>on_new_domain\<close> register as \<^verbatim>\<open>subscribe\<close> does.
\<close>

theorem dispatch_registration_order:
  assumes "s = register_all regs (init rate b p su lg w)"
    and "hs = registered_for (type_of ev) regs"
  shows "(dispatch env ev s = Ok s' \<longrightarrow>
           trace s' = trace s @ map (\<lambda>h. Invoke h ev) hs \<and>
           world s' = fold (\<lambda>h w. fst (handler env h ev w)) hs (world s)) \<and>
         (dispatch env ev s = Raise e s' \<longrightarrow>
           (\<exists>k < length hs.
              trace s' = trace s @ map (\<lambda>h. Invoke h ev) (take (Suc k) hs) \<and>
              snd (handler env (hs ! k) ev
                     (fold (\<lambda>h w. fst (handler env h ev w)) (take k hs) (world s))) = Some e)) \<and>
         on_new_message h s = subscribe NewMessageT h s \<and>
         on_new_domain h s = subscribe DomainChangeT h s"
proof -
  have hs: "handlers_get (handlers s) (type_of ev) = hs"
    using assms by (simp add: handlers_get_register_all)
  have A: "dispatch env ev s = Ok s' \<longrightarrow>
           trace s' = trace s @ map (\<lambda>h. Invoke h ev) hs \<and>
           world s' = fold (\<lambda>h w. fst (handler env h ev w)) hs (world s)"
    using dispatch_Ok [of env ev s s'] hs by auto
  have B: "dispatch env ev s = Raise e s' \<longrightarrow>
           (\<exists>k < length hs.
              trace s' = trace s @ map (\<lambda>h. Invoke h ev) (take (Suc k) hs) \<and>
              snd (handler env (hs ! k) ev
                     (fold (\<lambda>h w. fst (handler env h ev w)) (take k hs) (world s))) = Some e)"
    using dispatch_Raise [of env ev s e s'] hs by fastforce
  show ?thesis
    using A B on_new_message_subscribe [of h s] on_new_domain_subscribe [of h s] by blast
qed

lemma handlers_four_regs:
  "handlers (register_all four_regs bare) = [(NewMessageT, [1, 3, 1]), (DomainChangeT, [2])]"
  by (simp add: register_all_def four_regs_def subscribe_def init_def bare_def)

lemma dispatch_loop_recorder:
  "dispatch_loop recorder ev hs s = Ok (after_handlers recorder ev hs s)"
proof (induction hs arbitrary: s)
  case Nil
  show ?case by (simp add: after_handlers_def)
next
  case (Cons h hs)
  have "snd (handler recorder h ev (world s)) = None" by (simp add: recorder_def)
  then show ?case
    using Cons.IH [of "(emit (Invoke h ev) s)\<lparr>world := fst (handler recorder h ev (world s))\<rparr>"]
    by (simp add: Let_def after_handlers_def emit_def)
qed

lemma dispatch_recorder_four:
  "dispatch recorder (NewMessage m) (register_all four_regs bare) =
     Ok (after_handlers recorder (NewMessage m) [1, 3, 1] (register_all four_regs bare))"
  by (simp add: dispatch_def handlers_four_regs handlers_get_def dispatch_loop_recorder
        del: dispatch_loop.simps)

theorem dispatch_registration_order_witness:
  "trace (state_of (dispatch recorder (NewMessage (msg ''m1'' ''a'')) (register_all four_regs bare)))
     = [Invoke 1 (NewMessage (msg ''m1'' ''a'')), Invoke 3 (NewMessage (msg ''m1'' ''a'')),
        Invoke 1 (NewMessage (msg ''m1'' ''a''))] \<and>
   world (state_of (dispatch recorder (NewMessage (msg ''m1'' ''a'')) (register_all four_regs bare)))
     = [(1, NewMessage (msg ''m1'' ''a'')), (3, NewMessage (msg ''m1'' ''a'')),
        (1, NewMessage (msg ''m1'' ''a''))]"
proof -
  let ?s = "register_all four_regs bare"
  let ?ev = "NewMessage (msg ''m1'' ''a'')"
  let ?s' = "after_handlers recorder ?ev [1, 3, 1] ?s"
  have s: "?s = register_all four_regs (init None None None None None [])"
    by (simp add: bare_def)
  have hs: "[1, 3, 1] = registered_for (type_of ?ev) four_regs"
    by (simp add: registered_for_def four_regs_def)
  have ok: "dispatch recorder ?ev ?s = Ok ?s'" by (rule dispatch_recorder_four)
  have "trace ?s' = trace ?s @ map (\<lambda>h. Invoke h ?ev) [1, 3, 1] \<and>
        world ?s' = fold (\<lambda>h w. fst (handler recorder h ?ev w)) [1, 3, 1] (world ?s)"
    using dispatch_registration_order [OF s hs, of recorder ?s'] ok by blast
  then show ?thesis
    unfolding ok state_of.simps by (simp add: bare_def recorder_def)
qed

text \<open>
  C6. When the newest fetched entity has the identifier of the one in the last-seen slot, the
  check does nothing but the fetch: it returns normally, the slot keeps the entity it held
  (the fetched one is not stored, whatever its other fields), no handler is invoked and
  nothing is logged. This holds for messages and for domains.
\<close>

theorem same_id_no_event:
  "(last_msg s = l # ls \<and> messages v = m # ms \<and> msg_id l = msg_id m \<longrightarrow>
     check_for_new_messages env (Returns (Some v)) s = Ok (emit GetMessages s)) \<and>
   (last_domain s = l' # ls' \<and> domains v' = d # ds \<and> dom_id l' = dom_id d \<longrightarrow>
     check_for_new_domain env (Returns (Some v')) s = Ok (emit GetDomains s))"
  by (simp add: check_for_new_messages_def check_for_new_domain_def)

theorem same_id_no_event_witness:
  "check_for_new_messages recorder
     (Returns (Some \<lparr>messages = [msg ''m1'' ''other@y.org'', msg ''m0'' ''a@x.org'']\<rparr>)) seen
     = Ok (emit GetMessages seen) \<and>
   check_for_new_domain recorder (Returns (Some \<lparr>domains = [dom ''d1'' ''y.org'']\<rparr>)) seen
     = Ok (emit GetDomains seen)"
  using same_id_no_event [of seen "msg ''m1'' ''a@x.org''" "[]"
      "\<lparr>messages = [msg ''m1'' ''other@y.org'', msg ''m0'' ''a@x.org'']\<rparr>"
      "msg ''m1'' ''other@y.org''" "[msg ''m0'' ''a@x.org'']" recorder
      "dom ''d1'' ''x.org''" "[]" "\<lparr>domains = [dom ''d1'' ''y.org'']\<rparr>" "dom ''d1'' ''y.org''" "[]"]
  by (simp add: seen_def msg_def dom_def)

text \<open>
  C7. A fetch that gives nothing (no view, or a view with no entity) leaves the server as it
  was but for the fetch itself: the check returns normally, the last-seen slot holds what it
  held (it is not cleared), no handler is invoked and nothing is logged. And whatever the fetch
  gives, the message check leaves the domain slot alone and the domain check the message slot.
\<close>

theorem absent_fetch_leaves_slot:
  "((r = Returns None \<or> (\<exists>v. r = Returns (Some v) \<and> messages v = [])) \<longrightarrow>
      check_for_new_messages env r s = Ok (emit GetMessages s)) \<and>
   ((r' = Returns None \<or> (\<exists>v. r' = Returns (Some v) \<and> domains v = [])) \<longrightarrow>
      check_for_new_domain env r' s = Ok (emit GetDomains s)) \<and>
   last_msg (emit GetMessages s) = last_msg s \<and>
   last_domain (emit GetDomains s) = last_domain s \<and>
   last_domain (state_of (check_for_new_messages env q s)) = last_domain s \<and>
   last_msg (state_of (check_for_new_domain env q' s)) = last_msg s"
proof -
  have A: "(r = Returns None \<or> (\<exists>v. r = Returns (Some v) \<and> messages v = [])) \<longrightarrow>
      check_for_new_messages env r s = Ok (emit GetMessages s)"
    by (auto simp: check_for_new_messages_def)
  have B: "(r' = Returns None \<or> (\<exists>v. r' = Returns (Some v) \<and> domains v = [])) \<longrightarrow>
      check_for_new_domain env r' s = Ok (emit GetDomains s)"
    by (auto simp: check_for_new_domain_def)
  show ?thesis using A B by simp
qed

theorem absent_fetch_leaves_slot_witness:
  "check_for_new_messages recorder (Returns None) seen = Ok (emit GetMessages seen) \<and>
   check_for_new_domain recorder (Returns (Some \<lparr>domains = []\<rparr>)) seen = Ok (emit GetDomains seen) \<and>
   last_msg (emit GetMessages seen) = [msg ''m1'' ''a@x.org''] \<and>
   last_domain (emit GetDomains seen) = [dom ''d1'' ''x.org'']"
  using absent_fetch_leaves_slot [of "Returns None" recorder seen "Returns (Some \<lparr>domains = []\<rparr>)"]
  by (simp add: seen_def)

text \<open>
  C8. Each of the two last-seen holders has at most one element at all times. A server just
  constructed has both empty, and every operation of the server keeps both at length at most
  one: the three registration methods, \<^verbatim>\<open>log\<close>, \<^verbatim>\<open>dispatch\<close>, the two checks, closing the
  client, the banner, one iteration of the loop, the loop over any inputs, \<^verbatim>\<open>runner\<close>
  and \<^verbatim>\<open>run\<close>, whether they return or raise.
\<close>

theorem slots_hold_at_most_one:
  "last_msg (init rate b p su lg w) = [] \<and> last_domain (init rate b p su lg w) = [] \<and>
   slots_ok (init rate b p su lg w) \<and>
   (slots_ok s \<longrightarrow>
      slots_ok (subscribe t h s) \<and> slots_ok (on_new_message h s) \<and> slots_ok (on_new_domain h s) \<and>
      slots_ok (log txt sev s) \<and>
      slots_ok (state_of (dispatch env ev s)) \<and>
      slots_ok (state_of (check_for_new_messages env r s)) \<and>
      slots_ok (state_of (check_for_new_domain env r' s)) \<and>
      slots_ok (state_of (close env s)) \<and>
      slots_ok (state_of (banner env s)) \<and>
      slots_ok (state_of (tick env inp s)) \<and>
      slots_ok (final (loop env inps s)) \<and>
      slots_ok (final (runner env inps s)) \<and>
      slots_ok (final (run env inps s)))"
proof -
  have "slots_ok (state_of (check_for_new_messages env r s))" if "slots_ok s"
    using that check_for_new_messages_slot [of s env r] by (simp add: slots_ok_def)
  moreover have "slots_ok (state_of (check_for_new_domain env r' s))" if "slots_ok s"
    using that check_for_new_domain_slot [of s env r'] by (simp add: slots_ok_def)
  moreover have "slots_ok (state_of (dispatch env ev s))" if "slots_ok s"
    using that by (simp add: slots_ok_def)
  ultimately show ?thesis
    using tick_slots [of s env inp] loop_slots [of s env inps] runner_slots [of s env inps]
      run_slots [of s env inps]
    by (simp add: slots_ok_def on_new_message_subscribe on_new_domain_subscribe)
qed

theorem slots_hold_at_most_one_witness:
  "slots_ok seen \<and> slots_ok (final (run recorder [quiet, quiet] seen))"
  using slots_hold_at_most_one [of None None None None None "[]" seen]
  by (simp add: slots_ok_def seen_def)

text \<open>
  C10. A polling rate that Python takes for false, which for an optional integer is
  \<^verbatim>\<open>None\<close> or 0, makes every sleep of the loop last 1 second: the iteration sleeps
  once, for 1, and over any inputs the loop has slept for 1 each time.
\<close>

theorem falsy_rate_sleeps_one:
  assumes "\<not> truthy (pooling_rate s)"
  shows "sleep_delay (pooling_rate s) = 1 \<and>
         sleeps (trace (state_of (tick env inp s))) = sleeps (trace s) @ [1] \<and>
         (\<exists>k \<le> length inps. (inps \<noteq> [] \<longrightarrow> 0 < k) \<and>
            sleeps (trace (final (loop env inps s))) = sleeps (trace s) @ replicate k 1) \<and>
         \<not> truthy (Some 0) \<and> \<not> truthy None \<and>
         sleep_delay (Some 0) = sleep_delay None"
proof -
  from assms have d: "sleep_delay (pooling_rate s) = 1"
    by (simp add: sleep_delay_def truthy_def split: option.splits)
  show ?thesis
    using d tick_sleeps [of env inp s] loop_sleeps [of inps env s]
    by (simp add: truthy_def sleep_delay_def)
qed

theorem falsy_rate_sleeps_one_witness:
  "\<not> truthy (pooling_rate zero_rate) \<and> pooling_rate zero_rate = Some 0 \<and>
   sleeps (trace (state_of (tick recorder quiet zero_rate))) = [1]"
  using falsy_rate_sleeps_one [of zero_rate recorder quiet "[]"]
  by (simp add: zero_rate_def truthy_def)

text \<open>
  C1. The claim asks for exactly one call of the client's \<^verbatim>\<open>close\<close> on every path that ends
  the loop. The code does not do so on two of them. With no handler registered, the loop body
  closes the client and raises, and the clause \<^verbatim>\<open>except Exception\<close> of \<^verbatim>\<open>runner\<close> catches
  that exception and closes the client again: two calls. When the sleep is ended by
  \<^verbatim>\<open>KeyboardInterrupt\<close>, which is not an \<^verbatim>\<open>Exception\<close>, that clause is passed by and
  \<^verbatim>\<open>run\<close> only logs: no call. The theorem evaluates \<^verbatim>\<open>run\<close> at both inputs, on a server
  constructed with the default arguments.
\<close>

theorem close_count_on_termination:
  "run recorder [quiet] (default_server None []) =
     Returned ((default_server None [])
                 \<lparr>trace := [PrintBanner ''banner'', Sleep 1, Close, Close]\<rparr>) \<and>
   n_closes (trace (final (run recorder [quiet] (default_server None [])))) = 2 \<and>
   run recorder [interrupted] (on_new_message 7 (default_server None [])) =
     Returned ((on_new_message 7 (default_server None []))
                 \<lparr>trace := [PrintBanner ''banner'', Sleep 1]\<rparr>) \<and>
   n_closes (trace (final (run recorder [interrupted]
                             (on_new_message 7 (default_server None []))))) = 0"
  by (simp add: run_def runner_def try_loop_def tick_def close_def banner_def
        default_server_def init_def recorder_def quiet_def interrupted_def startup_def log_def
        log_lines_def emit_def n_closes_def no_subscription_def Let_def sleep_delay_def
        truthy_def on_new_message_def check_for_new_messages_def)



text \<open>
  C9. As stated the claim fails: when the fetch gives a non-empty view whose newest entity has
  the identifier of the one in the slot, the check leaves the slot alone, so the slot is
  written zero times in that iteration, not once. What holds: in an iteration whose fetch
  gives a non-empty view, the slot is written exactly once if it is empty or holds an entity
  with another identifier, and after the iteration it holds the fetched entity in place of
  the one it held; otherwise it is not written at all and holds after the iteration what it
  held before. This is so whether the iteration returns or raises after the write. And
  nothing but the two checks touches the slots (registration, \<^verbatim>\<open>log\<close>, \<^verbatim>\<open>dispatch\<close> and
  closing the client leave both as they are, and each check leaves the other category's slot).
\<close>

theorem slot_written_once_on_change:
  "(sleep_in inp = None \<and> map_of (handlers s) NewMessageT \<noteq> None \<and>
      messages_in inp = Returns (Some v) \<and> messages v = m # ms \<longrightarrow>
      msg_writes (trace (state_of (tick env inp s))) =
        msg_writes (trace s) + (if differs_msg (last_msg s) m then 1 else 0) \<and>
      last_msg (state_of (tick env inp s)) =
        (if differs_msg (last_msg s) m then m # tl (last_msg s) else last_msg s)) \<and>
   (sleep_in inp = None \<and>
      msg_phase env inp (emit (Sleep (sleep_delay (pooling_rate s))) s) = Ok s1 \<and>
      map_of (handlers s) DomainChangeT \<noteq> None \<and>
      domains_in inp = Returns (Some v') \<and> domains v' = d # ds \<longrightarrow>
      dom_writes (trace (state_of (tick env inp s))) =
        dom_writes (trace s) + (if differs_dom (last_domain s) d then 1 else 0) \<and>
      last_domain (state_of (tick env inp s)) =
        (if differs_dom (last_domain s) d then d # tl (last_domain s) else last_domain s)) \<and>
   differs_msg (last_msg s) m = (last_msg s = [] \<or> msg_id (hd (last_msg s)) \<noteq> msg_id m) \<and>
   differs_dom (last_domain s) d = (last_domain s = [] \<or> dom_id (hd (last_domain s)) \<noteq> dom_id d) \<and>
   last_msg (subscribe t h s) = last_msg s \<and> last_domain (subscribe t h s) = last_domain s \<and>
   last_msg (log txt sev s) = last_msg s \<and> last_domain (log txt sev s) = last_domain s \<and>
   last_msg (state_of (dispatch env ev s)) = last_msg s \<and>
   last_domain (state_of (dispatch env ev s)) = last_domain s \<and>
   last_msg (state_of (close env s)) = last_msg s \<and>
   last_domain (state_of (close env s)) = last_domain s \<and>
   last_msg (state_of (check_for_new_domain env r s)) = last_msg s \<and>
   last_domain (state_of (check_for_new_messages env r' s)) = last_domain s"
proof -
  have A: "sleep_in inp = None \<and> map_of (handlers s) NewMessageT \<noteq> None \<and>
      messages_in inp = Returns (Some v) \<and> messages v = m # ms \<longrightarrow>
      msg_writes (trace (state_of (tick env inp s))) =
        msg_writes (trace s) + (if differs_msg (last_msg s) m then 1 else 0)"
    using tick_msg_writes [of inp env s]
      check_for_new_messages_writes [of env "messages_in inp" "emit (Sleep (sleep_delay (pooling_rate s))) s"]
    by (auto simp: msg_phase_def)
  have A': "sleep_in inp = None \<and> map_of (handlers s) NewMessageT \<noteq> None \<and>
      messages_in inp = Returns (Some v) \<and> messages v = m # ms \<longrightarrow>
      last_msg (state_of (tick env inp s)) =
        (if differs_msg (last_msg s) m then m # tl (last_msg s) else last_msg s)"
    using tick_last_msg [of inp env s]
      check_for_new_messages_last_msg [of env "messages_in inp" "emit (Sleep (sleep_delay (pooling_rate s))) s"]
    by (auto simp: msg_phase_def)
  have B: "sleep_in inp = None \<and>
      msg_phase env inp (emit (Sleep (sleep_delay (pooling_rate s))) s) = Ok s1 \<and>
      map_of (handlers s) DomainChangeT \<noteq> None \<and>
      domains_in inp = Returns (Some v') \<and> domains v' = d # ds \<longrightarrow>
      dom_writes (trace (state_of (tick env inp s))) =
        dom_writes (trace s) + (if differs_dom (last_domain s) d then 1 else 0)"
    using tick_dom_writes [of inp env s s1] check_for_new_domain_writes [of env "domains_in inp" s1]
    by (auto simp: dom_phase_def)
  have B': "sleep_in inp = None \<and>
      msg_phase env inp (emit (Sleep (sleep_delay (pooling_rate s))) s) = Ok s1 \<and>
      map_of (handlers s) DomainChangeT \<noteq> None \<and>
      domains_in inp = Returns (Some v') \<and> domains v' = d # ds \<longrightarrow>
      last_domain (state_of (tick env inp s)) =
        (if differs_dom (last_domain s) d then d # tl (last_domain s) else last_domain s)"
    using tick_last_domain [of inp env s s1] tick_dom_writes [of inp env s s1]
      check_for_new_domain_last_domain [of env "domains_in inp" s1]
    by (auto simp: dom_phase_def)
  have C: "differs_msg (last_msg s) m = (last_msg s = [] \<or> msg_id (hd (last_msg s)) \<noteq> msg_id m)"
    "differs_dom (last_domain s) d = (last_domain s = [] \<or> dom_id (hd (last_domain s)) \<noteq> dom_id d)"
    by (simp_all add: differs_msg_def differs_dom_def split: list.splits)
  show ?thesis using A A' B B' C by simp
qed

text \<open>
  The iteration below fetches a message with the id \<open>m1\<close> of the message in the slot (and
  another sender): the slot is not written.
\<close>

theorem slot_not_written_counterexample:
  "sleep_in (got (msg ''m1'' ''b@x.org'')) = None \<and>
   messages_in (got (msg ''m1'' ''b@x.org'')) = Returns (Some \<lparr>messages = [msg ''m1'' ''b@x.org'']\<rparr>) \<and>
   handlers (on_new_message 7 seen) = [(NewMessageT, [7])] \<and>
   tick recorder (got (msg ''m1'' ''b@x.org'')) (on_new_message 7 seen) =
     Ok ((on_new_message 7 seen)\<lparr>trace := [Sleep 1, GetMessages]\<rparr>) \<and>
   msg_writes (trace (state_of (tick recorder (got (msg ''m1'' ''b@x.org'')) (on_new_message 7 seen)))) = 0"
  by (simp add: tick_def check_for_new_messages_def got_def seen_def bare_def init_def
        on_new_message_def emit_def Let_def sleep_delay_def msg_def)

theorem slot_written_once_on_change_witness:
  "msg_writes (trace (state_of (tick recorder (got (msg ''m2'' ''b@x.org'')) (on_new_message 7 seen)))) = 1 \<and>
   last_msg (state_of (tick recorder (got (msg ''m2'' ''b@x.org'')) (on_new_message 7 seen))) =
     [msg ''m2'' ''b@x.org''] \<and>
   msg_writes (trace (state_of (tick recorder (got (msg ''m1'' ''b@x.org'')) (on_new_message 7 seen)))) = 0 \<and>
   last_msg (state_of (tick recorder (got (msg ''m1'' ''b@x.org'')) (on_new_message 7 seen))) =
     [msg ''m1'' ''a@x.org''] \<and>
   dom_writes (trace (state_of (tick recorder (got_dom (dom ''d2'' ''y.org''))
                                  (on_new_domain 8 (on_new_message 7 seen))))) = 1 \<and>
   last_domain (state_of (tick recorder (got_dom (dom ''d2'' ''y.org''))
                            (on_new_domain 8 (on_new_message 7 seen)))) = [dom ''d2'' ''y.org'']"
  using slot_written_once_on_change [of "got (msg ''m2'' ''b@x.org'')" "on_new_message 7 seen"
      "\<lparr>messages = [msg ''m2'' ''b@x.org'']\<rparr>" "msg ''m2'' ''b@x.org''" "[]" recorder]
    slot_written_once_on_change [of "got (msg ''m1'' ''b@x.org'')" "on_new_message 7 seen"
      "\<lparr>messages = [msg ''m1'' ''b@x.org'']\<rparr>" "msg ''m1'' ''b@x.org''" "[]" recorder]
    slot_written_once_on_change [of "got_dom (dom ''d2'' ''y.org'')"
      "on_new_domain 8 (on_new_message 7 seen)" _ _ _ recorder
      "emit GetMessages (emit (Sleep 1) (on_new_domain 8 (on_new_message 7 seen)))"
      "\<lparr>domains = [dom ''d2'' ''y.org'']\<rparr>" "dom ''d2'' ''y.org''" "[]"]
  by (simp add: got_def got_dom_def seen_def bare_def on_new_message_def on_new_domain_def
        msg_def dom_def differs_msg_def differs_dom_def msg_phase_def
        check_for_new_messages_def sleep_delay_def)

text \<open>
  C2. A server is constructed and given one handler \<open>h\<close> by \<^verbatim>\<open>on_new_message\<close>; the handler
  never raises. The loop, entered after the start-up log lines, makes four iterations whose
  message fetches give nothing, then a view whose newest message has id \<open>m1\<close>, then again a
  view whose newest message has id \<open>m1\<close>, then one whose newest message has id \<open>m2\<close> (the
  other fields and the older messages of each view are arbitrary). After one iteration the
  handler has not been invoked; after two it has been invoked once, with the first \<open>m1\<close>
  message. When that message has a sender: after three iterations the handler has still been
  invoked once, and after four twice, the second time with the \<open>m2\<close> message (and the loop is
  still running if the \<open>m2\<close> message has a sender too). When that message has no sender,
  the second iteration raises after the handler has run, because the argument of the call of
  \<^verbatim>\<open>log\<close> reads \<^verbatim>\<open>message_from.address\<close>: the loop ends there, the third and fourth fetch
  are never made, and the handler has been invoked once, not twice.
\<close>

theorem new_message_scenario:
  assumes h: "\<forall>ev w. snd (handler env h ev w) = None"
    and s0: "s0 = startup (on_new_message h (init rate b p su lg w))"
    and i1: "sleep_in i1 = None" "messages_in i1 = Returns None"
    and i2: "sleep_in i2 = None" "messages_in i2 = Returns (Some v2)" "messages v2 = m2 # r2"
      "msg_id m2 = ''m1''"
    and i3: "sleep_in i3 = None" "messages_in i3 = Returns (Some v3)" "messages v3 = m3 # r3"
      "msg_id m3 = ''m1''"
    and i4: "sleep_in i4 = None" "messages_in i4 = Returns (Some v4)" "messages v4 = m4 # r4"
      "msg_id m4 = ''m2''"
  shows "invocations (trace (final (loop env [i1] s0))) = [] \<and>
         invocations (trace (final (loop env [i1, i2] s0))) = [(h, NewMessage m2)] \<and>
         (message_from m2 \<noteq> None \<longrightarrow>
            invocations (trace (final (loop env [i1, i2, i3] s0))) = [(h, NewMessage m2)] \<and>
            invocations (trace (final (loop env [i1, i2, i3, i4] s0))) =
              [(h, NewMessage m2), (h, NewMessage m4)]) \<and>
         (message_from m2 \<noteq> None \<and> message_from m4 \<noteq> None \<longrightarrow>
            (\<exists>s'. loop env [i1, i2, i3, i4] s0 = Running s')) \<and>
         (message_from m2 = None \<longrightarrow>
            (\<exists>s'. loop env [i1, i2] s0 = Raised attribute_error s' \<and>
                  loop env [i1, i2, i3, i4] s0 = Raised attribute_error s' \<and>
                  invocations (trace s') = [(h, NewMessage m2)]))"
proof -
  let ?d = "sleep_delay rate"
  let ?f2 = "message_from m2"
  let ?f4 = "message_from m4"
  let ?s1 = "emit GetMessages (emit (Sleep ?d) s0)"
  let ?u2 = "after_handlers env (NewMessage m2) [h]
            (emit (WriteLastMsg m2)
              ((emit GetMessages (emit (Sleep ?d) ?s1))\<lparr>last_msg := [m2]\<rparr>))"
  have f0: "handlers s0 = [(NewMessageT, [h])]" "last_msg s0 = []" "pooling_rate s0 = rate"
    "invocations (trace s0) = []"
    by (simp_all add: s0 on_new_message_def)
  have t1: "tick env i1 s0 = Ok ?s1"
    using tick_msg_quiet [of s0 "[h]" i1 env] f0 i1 by simp
  have f1: "handlers ?s1 = [(NewMessageT, [h])]" "last_msg ?s1 = []" "pooling_rate ?s1 = rate"
    using f0 by simp_all
  have l1: "loop env [i1] s0 = Running ?s1" using t1 by simp
  have A: "invocations (trace (final (loop env [i1] s0))) = []"
    unfolding l1 using f0(4) by simp
  have iu2: "invocations (trace ?u2) = [(h, NewMessage m2)]" using f0(4) by simp
  have B: "invocations (trace (final (loop env [i1, i2] s0))) = [(h, NewMessage m2)]"
  proof (cases ?f2)
    case None
    have "tick env i2 ?s1 = Raise attribute_error ?u2"
      using tick_msg_anonymous [of ?s1 h i2 v2 m2 r2 env] f1 i2 h None by simp
    with t1 have "loop env [i1, i2] s0 = Raised attribute_error ?u2" by simp
    then show ?thesis using iu2 by simp
  next
    case (Some a)
    have "tick env i2 ?s1 = Ok (log (ReceivedFrom a) INFO ?u2)"
      using tick_msg_new [of ?s1 h i2 v2 m2 r2 env a] f1 i2 h Some by simp
    with t1 have "loop env [i1, i2] s0 = Running (log (ReceivedFrom a) INFO ?u2)" by simp
    then show ?thesis using iu2 by simp
  qed
  have C: "invocations (trace (final (loop env [i1, i2, i3] s0))) = [(h, NewMessage m2)] \<and>
           invocations (trace (final (loop env [i1, i2, i3, i4] s0))) =
              [(h, NewMessage m2), (h, NewMessage m4)] \<and>
           (message_from m4 \<noteq> None \<longrightarrow> (\<exists>s'. loop env [i1, i2, i3, i4] s0 = Running s'))"
    if "message_from m2 = Some a" for a
  proof -
    let ?s2 = "log (ReceivedFrom a) INFO ?u2"
    let ?s3 = "emit GetMessages (emit (Sleep ?d) ?s2)"
    let ?u4 = "after_handlers env (NewMessage m4) [h]
            (emit (WriteLastMsg m4)
              ((emit GetMessages (emit (Sleep ?d) ?s3))\<lparr>last_msg := [m4]\<rparr>))"
    have t2: "tick env i2 ?s1 = Ok ?s2"
      using tick_msg_new [of ?s1 h i2 v2 m2 r2 env a] f1 i2 h that by simp
    have f2: "handlers ?s2 = [(NewMessageT, [h])]" "last_msg ?s2 = [m2]" "pooling_rate ?s2 = rate"
      using f1 by simp_all
    have t3: "tick env i3 ?s2 = Ok ?s3"
      using tick_msg_quiet [of ?s2 "[h]" i3 env] f2 i3 i2(4) by simp
    have f3: "handlers ?s3 = [(NewMessageT, [h])]" "last_msg ?s3 = [m2]" "pooling_rate ?s3 = rate"
      using f2 by simp_all
    have l3: "loop env [i1, i2, i3] s0 = Running ?s3" using t1 t2 t3 by simp
    have iu4: "invocations (trace ?u4) = [(h, NewMessage m2), (h, NewMessage m4)]"
      using f0(4) by simp
    have D: "invocations (trace (final (loop env [i1, i2, i3, i4] s0))) =
              [(h, NewMessage m2), (h, NewMessage m4)] \<and>
           (message_from m4 \<noteq> None \<longrightarrow> (\<exists>s'. loop env [i1, i2, i3, i4] s0 = Running s'))"
    proof (cases ?f4)
      case None
      have "tick env i4 ?s3 = Raise attribute_error ?u4"
        using tick_msg_anonymous [of ?s3 h i4 v4 m4 r4 env] f3 i4 i2(4) h None by simp
      with t1 t2 t3 have "loop env [i1, i2, i3, i4] s0 = Raised attribute_error ?u4" by simp
      then show ?thesis using iu4 None by simp
    next
      case (Some c)
      have "tick env i4 ?s3 = Ok (log (ReceivedFrom c) INFO ?u4)"
        using tick_msg_new [of ?s3 h i4 v4 m4 r4 env c] f3 i4 i2(4) h Some by simp
      with t1 t2 t3 have "loop env [i1, i2, i3, i4] s0 = Running (log (ReceivedFrom c) INFO ?u4)"
        by simp
      then show ?thesis using iu4 by simp
    qed
    show ?thesis unfolding l3 using D f0(4) by simp
  qed
  have E: "\<exists>s'. loop env [i1, i2] s0 = Raised attribute_error s' \<and>
                  loop env [i1, i2, i3, i4] s0 = Raised attribute_error s' \<and>
                  invocations (trace s') = [(h, NewMessage m2)]"
    if "message_from m2 = None"
  proof -
    have "tick env i2 ?s1 = Raise attribute_error ?u2"
      using tick_msg_anonymous [of ?s1 h i2 v2 m2 r2 env] f1 i2 h that by simp
    with t1 have "loop env [i1, i2] s0 = Raised attribute_error ?u2"
      "loop env [i1, i2, i3, i4] s0 = Raised attribute_error ?u2" by simp_all
    with iu2 show ?thesis by blast
  qed
  show ?thesis using A B C E by auto
qed

theorem new_message_scenario_witness:
  "invocations (trace (final (loop recorder
      [quiet, got (anonymous ''m1''), got (msg ''m1'' ''b@x.org''), got (msg ''m2'' ''c@x.org'')]
      (startup (on_new_message 7 bare))))) =
     [(7, NewMessage (anonymous ''m1''))] \<and>
   invocations (trace (final (loop recorder
      [quiet, got (msg ''m1'' ''a@x.org''), got (msg ''m1'' ''b@x.org''), got (msg ''m2'' ''c@x.org'')]
      (startup (on_new_message 7 bare))))) =
     [(7, NewMessage (msg ''m1'' ''a@x.org'')), (7, NewMessage (msg ''m2'' ''c@x.org''))]"
proof -
  let ?pre = "startup (on_new_message 7 bare)"
  have A: "\<exists>s'. loop recorder [quiet, got (anonymous ''m1'')] ?pre = Raised attribute_error s' \<and>
          loop recorder [quiet, got (anonymous ''m1''), got (msg ''m1'' ''b@x.org''),
                         got (msg ''m2'' ''c@x.org'')] ?pre = Raised attribute_error s' \<and>
          invocations (trace s') = [(7, NewMessage (anonymous ''m1''))]"
    using new_message_scenario [of recorder 7 ?pre
      None None None None None "[]" quiet
      "got (anonymous ''m1'')" "\<lparr>messages = [anonymous ''m1'']\<rparr>"
      "anonymous ''m1''" "[]"
      "got (msg ''m1'' ''b@x.org'')" "\<lparr>messages = [msg ''m1'' ''b@x.org'']\<rparr>"
      "msg ''m1'' ''b@x.org''" "[]"
      "got (msg ''m2'' ''c@x.org'')" "\<lparr>messages = [msg ''m2'' ''c@x.org'']\<rparr>"
      "msg ''m2'' ''c@x.org''" "[]"]
    by (simp add: recorder_def quiet_def got_def msg_def anonymous_def bare_def)
  have B: "invocations (trace (final (loop recorder
      [quiet, got (msg ''m1'' ''a@x.org''), got (msg ''m1'' ''b@x.org''), got (msg ''m2'' ''c@x.org'')]
      ?pre))) =
     [(7, NewMessage (msg ''m1'' ''a@x.org'')), (7, NewMessage (msg ''m2'' ''c@x.org''))]"
    using new_message_scenario [of recorder 7 ?pre
      None None None None None "[]" quiet
      "got (msg ''m1'' ''a@x.org'')" "\<lparr>messages = [msg ''m1'' ''a@x.org'']\<rparr>"
      "msg ''m1'' ''a@x.org''" "[]"
      "got (msg ''m1'' ''b@x.org'')" "\<lparr>messages = [msg ''m1'' ''b@x.org'']\<rparr>"
      "msg ''m1'' ''b@x.org''" "[]"
      "got (msg ''m2'' ''c@x.org'')" "\<lparr>messages = [msg ''m2'' ''c@x.org'']\<rparr>"
      "msg ''m2'' ''c@x.org''" "[]"]
    by (simp add: recorder_def quiet_def got_def msg_def bare_def)
  from A obtain s' where
    "loop recorder [quiet, got (anonymous ''m1''), got (msg ''m1'' ''b@x.org''),
                         got (msg ''m2'' ''c@x.org'')] ?pre = Raised attribute_error s'"
    "invocations (trace s') = [(7, NewMessage (anonymous ''m1''))]" by blast
  then have "invocations (trace (final (loop recorder
      [quiet, got (anonymous ''m1''), got (msg ''m1'' ''b@x.org''), got (msg ''m2'' ''c@x.org'')]
      ?pre))) = [(7, NewMessage (anonymous ''m1''))]" by simp
  with B show ?thesis by simp
qed

text \<open>
  C3. As stated the claim fails. \<^verbatim>\<open>log\<close> prints only when the server was constructed with
  \<^verbatim>\<open>enable_logging=True\<close>, and the default is \<^verbatim>\<open>False\<close>: in the default configuration a
  failure ends the loop, the client is closed, nothing is printed and \<^verbatim>\<open>run\<close> returns
  normally. The clause \<^verbatim>\<open>except Exception\<close> of \<^verbatim>\<open>runner\<close> is the only place where the client
  is closed and the failure logged: a failure that is not an \<^verbatim>\<open>Exception\<close> leaves \<^verbatim>\<open>runner\<close>
  without either, and when \<^verbatim>\<open>close\<close> raises, its exception leaves \<^verbatim>\<open>runner\<close> before
  \<^verbatim>\<open>log\<close> is called.

  What holds. Let an iteration, made after any number of iterations that returned, fail with
  \<open>e\<close>: the message fetch or the domain fetch raises \<open>e\<close>, or a handler of \<^verbatim>\<open>NewMessage\<close> or of
  \<^verbatim>\<open>DomainChange\<close>, at any position among the registered ones, is the first to raise, with
  \<open>e\<close>. Then the iteration raises \<open>e\<close> and the loop ends there, whatever iterations would have
  followed: none is made. If \<open>e\<close> is an \<^verbatim>\<open>Exception\<close> and \<^verbatim>\<open>close\<close> returns, \<^verbatim>\<open>run\<close> returns;
  after the actions of the failing iteration the trace has one \<^verbatim>\<open>close\<close> and then what
  \<^verbatim>\<open>log\<close> prints for the failure, which is a line (two lines when \<^verbatim>\<open>suppress_errors\<close> is
  not \<^verbatim>\<open>False\<close>) exactly when logging is enabled, and nothing otherwise. If \<open>e\<close> is an
  \<^verbatim>\<open>Exception\<close> and \<^verbatim>\<open>close\<close> raises, the exception of \<^verbatim>\<open>close\<close> leaves \<^verbatim>\<open>runner\<close> after the
  one \<^verbatim>\<open>close\<close>, and nothing is logged. If \<open>e\<close> is not an \<^verbatim>\<open>Exception\<close>, it leaves
  \<^verbatim>\<open>runner\<close> in the state the iteration left: no \<^verbatim>\<open>close\<close>, no log.
\<close>

theorem failure_ends_loop:
  assumes ban: "(if banner_enabled s = Some True then banner env s else Ok s) = Ok sb"
    and pre: "loop env pre (startup sb) = Running sk"
    and fail: "failure env inp sk k e"
  shows "\<exists>s'. tick env inp sk = Raise e s' \<and>
           loop env (pre @ inp # post) (startup sb) = Raised e s' \<and>
           (is_Exception e \<and> close_client env (n_closes (trace s')) = None \<longrightarrow>
              run env (pre @ inp # post) s =
                Returned (log (RunnerException e) INFO (emit Close s')) \<and>
              trace (final (run env (pre @ inp # post) s)) =
                trace s' @ Close #
                  log_lines (logging_enabled s) (suppress_errors s) (RunnerException e) INFO \<and>
              prints (log_lines (logging_enabled s) (suppress_errors s) (RunnerException e) INFO) =
                (if logging_enabled s = Some True
                 then (InfoLine, RunnerException e) #
                        (if suppress_errors s = Some False then []
                         else [(UnrecognizedLine, RunnerException e)])
                 else [])) \<and>
           (is_Exception e \<and> close_client env (n_closes (trace s')) = Some e' \<longrightarrow>
              runner env (pre @ inp # post) s = Raised e' (emit Close s')) \<and>
           (\<not> is_Exception e \<longrightarrow> runner env (pre @ inp # post) s = Raised e s')"
proof -
  from failure_tick [OF fail] obtain s' where tk: "tick env inp sk = Raise e s'" by blast
  have sb: "sb = state_of (if banner_enabled s = Some True then banner env s else Ok s)"
    by (simp add: ban)
  have fb: "logging_enabled sb = logging_enabled s" "suppress_errors sb = suppress_errors s"
    unfolding sb by simp_all
  have sk: "sk = final (loop env pre (startup sb))" by (simp add: pre)
  have fk: "logging_enabled sk = logging_enabled s" "suppress_errors sk = suppress_errors s"
    unfolding sk by (simp_all add: fb)
  have s': "s' = state_of (tick env inp sk)" by (simp add: tk)
  have f': "logging_enabled s' = logging_enabled s" "suppress_errors s' = suppress_errors s"
    unfolding s' by (simp_all add: fk)
  have l: "loop env (pre @ inp # post) (startup sb) = Raised e s'"
    using loop_append [OF pre, of "inp # post"] tk by simp
  have rn: "runner env (pre @ inp # post) s = try_loop env (pre @ inp # post) sb"
    by (simp add: runner_def ban)
  have A: "run env (pre @ inp # post) s =
                Returned (log (RunnerException e) INFO (emit Close s')) \<and>
              trace (final (run env (pre @ inp # post) s)) =
                trace s' @ Close #
                  log_lines (logging_enabled s) (suppress_errors s) (RunnerException e) INFO"
    if "is_Exception e" "close_client env (n_closes (trace s')) = None"
  proof -
    have c: "close env s' = Ok (emit Close s')" using that(2) by (simp add: close_def)
    have "run env (pre @ inp # post) s =
            Returned (log (RunnerException e) INFO (emit Close s'))"
      by (simp add: run_def rn try_loop_def l c that(1))
    then show ?thesis by (simp add: f')
  qed
  have B: "runner env (pre @ inp # post) s = Raised e' (emit Close s')"
    if "is_Exception e" "close_client env (n_closes (trace s')) = Some e'"
  proof -
    have c: "close env s' = Raise e' (emit Close s')" using that(2) by (simp add: close_def)
    show ?thesis by (simp add: rn try_loop_def l c that(1))
  qed
  have C: "runner env (pre @ inp # post) s = Raised e s'" if "\<not> is_Exception e"
    by (simp add: rn try_loop_def l that)
  show ?thesis
    using tk l A B C prints_log_lines [of "logging_enabled s" "suppress_errors s" "RunnerException e"]
    by (intro exI [of _ s']) (simp add: f')
qed

text \<open>
  Three runs of a server with one handler of \<^verbatim>\<open>NewMessage\<close>. With every optional argument at
  its default, the handler raises on the first message, or the first fetch raises: the run
  returns, the client has been closed once, and nothing has been printed. With logging
  enabled, the handler raises an exception that is not an \<^verbatim>\<open>Exception\<close>: it leaves
  \<^verbatim>\<open>run\<close>, the client has not been closed and the failure has not been printed. With logging
  enabled, the handler raises and then \<^verbatim>\<open>close\<close> raises: the exception of \<^verbatim>\<open>close\<close> leaves
  \<^verbatim>\<open>run\<close>, and the failure of the handler has not been printed.
\<close>

theorem failure_not_logged_counterexample:
  "run faulty [got (msg ''m1'' ''a@x.org''), quiet] (on_new_message 7 (default_server None [])) =
     Returned ((on_new_message 7 (default_server None []))
        \<lparr>last_msg := [msg ''m1'' ''a@x.org''],
          trace := [PrintBanner ''banner'', Sleep 1, GetMessages,
                    WriteLastMsg (msg ''m1'' ''a@x.org''),
                    Invoke 7 (NewMessage (msg ''m1'' ''a@x.org'')), Close]\<rparr>) \<and>
   prints (trace (final (run faulty [got (msg ''m1'' ''a@x.org''), quiet]
                           (on_new_message 7 (default_server None []))))) = [] \<and>
   run faulty [fetch_fails (Exception ''net''), quiet] (on_new_message 7 (default_server None [])) =
     Returned ((on_new_message 7 (default_server None []))
        \<lparr>trace := [PrintBanner ''banner'', Sleep 1, GetMessages, Close]\<rparr>) \<and>
   prints (trace (final (run faulty [fetch_fails (Exception ''net''), quiet]
                           (on_new_message 7 (default_server None []))))) = [] \<and>
   logging_enabled (on_new_message 7 (default_server None [] :: (handler_id \<times> event) list server))
     = Some False \<and>
   run cancelling [got (msg ''m1'' ''a@x.org''), quiet] (on_new_message 7 talking) =
     Raised (OtherBaseException ''CancelledError'')
       ((on_new_message 7 talking)
        \<lparr>last_msg := [msg ''m1'' ''a@x.org''],
          trace := [Print InfoLine SessionStarted, Print InfoLine (PoolingRate None),
                    Print InfoLine (LoggingEnabled (Some True)), Print InfoLine (BannerEnabled None),
                    Print InfoLine (SubscribedEvents 1),
                    Sleep 1, GetMessages, WriteLastMsg (msg ''m1'' ''a@x.org''),
                    Invoke 7 (NewMessage (msg ''m1'' ''a@x.org''))]\<rparr>) \<and>
   run faulty_close [got (msg ''m1'' ''a@x.org''), quiet] (on_new_message 7 talking) =
     Raised (Exception ''closed'')
       ((on_new_message 7 talking)
        \<lparr>last_msg := [msg ''m1'' ''a@x.org''],
          trace := [Print InfoLine SessionStarted, Print InfoLine (PoolingRate None),
                    Print InfoLine (LoggingEnabled (Some True)), Print InfoLine (BannerEnabled None),
                    Print InfoLine (SubscribedEvents 1),
                    Sleep 1, GetMessages, WriteLastMsg (msg ''m1'' ''a@x.org''),
                    Invoke 7 (NewMessage (msg ''m1'' ''a@x.org'')), Close]\<rparr>)"
  by (simp add: run_def runner_def try_loop_def tick_def close_def banner_def talking_def
        default_server_def init_def faulty_def cancelling_def faulty_close_def quiet_def got_def
        fetch_fails_def startup_def log_def
        log_lines_def emit_def n_closes_def Let_def sleep_delay_def dispatch_def handlers_get_def
        truthy_def on_new_message_def check_for_new_messages_def msg_def)

theorem failure_ends_loop_witness:
  "trace (final (run picky
      [quiet, got_both (msg ''m1'' ''a@x.org'') (dom ''d1'' ''x.org''), quiet]
      (on_new_domain 9 (on_new_domain 8 (on_new_message 7 talking))))) =
     [Print InfoLine SessionStarted, Print InfoLine (PoolingRate None),
      Print InfoLine (LoggingEnabled (Some True)), Print InfoLine (BannerEnabled None),
      Print InfoLine (SubscribedEvents 2),
      Sleep 1, GetMessages, GetDomains,
      Sleep 1, GetMessages, WriteLastMsg (msg ''m1'' ''a@x.org''),
      Invoke 7 (NewMessage (msg ''m1'' ''a@x.org'')), Print InfoLine (ReceivedFrom ''a@x.org''),
      GetDomains, WriteLastDomain (dom ''d1'' ''x.org''),
      Invoke 8 (DomainChange (dom ''d1'' ''x.org'')),
      Invoke 9 (DomainChange (dom ''d1'' ''x.org'')),
      Close, Print InfoLine (RunnerException (Exception ''boom''))]"
proof -
  let ?s = "on_new_domain 9 (on_new_domain 8 (on_new_message 7 talking))"
  let ?m = "msg ''m1'' ''a@x.org''"
  let ?d = "dom ''d1'' ''x.org''"
  let ?inp = "got_both ?m ?d"
  let ?e = "Exception ''boom''"
  let ?sk = "emit GetDomains (emit GetMessages (emit (Sleep 1) (startup ?s)))"
  have hs: "handlers ?s = [(NewMessageT, [7]), (DomainChangeT, [8, 9])]"
    by (simp add: on_new_domain_def on_new_message_def talking_def init_def)
  have f: "last_msg ?s = []" "last_domain ?s = []" "trace ?s = []" "pooling_rate ?s = None"
    "logging_enabled ?s = Some True" "suppress_errors ?s = Some False" "banner_enabled ?s = None"
    "world ?s = []"
    by (simp_all add: on_new_domain_subscribe on_new_message_subscribe talking_def)
  have ban: "(if banner_enabled ?s = Some True then banner picky ?s else Ok ?s) = Ok ?s"
    by (simp add: f)
  have pre: "loop picky [quiet] (startup ?s) = Running ?sk"
    by (simp add: tick_def hs f quiet_def check_for_new_messages_def check_for_new_domain_def
          Let_def sleep_delay_def)
  have fail: "failure picky ?inp ?sk 1 ?e"
    by (simp add: failure_def msg_failure_def dom_failure_def msg_phase_def hs f got_both_def
          check_for_new_messages_def dispatch_def handlers_get_def Let_def msg_def
          differs_msg_def differs_dom_def first_failure_def picky_def)
  have tr: "trace (state_of (tick picky ?inp ?sk)) =
     [Print InfoLine SessionStarted, Print InfoLine (PoolingRate None),
      Print InfoLine (LoggingEnabled (Some True)), Print InfoLine (BannerEnabled None),
      Print InfoLine (SubscribedEvents 2),
      Sleep 1, GetMessages, GetDomains,
      Sleep 1, GetMessages, WriteLastMsg ?m,
      Invoke 7 (NewMessage ?m), Print InfoLine (ReceivedFrom ''a@x.org''),
      GetDomains, WriteLastDomain ?d, Invoke 8 (DomainChange ?d), Invoke 9 (DomainChange ?d)]"
    by (simp add: tick_def hs f got_both_def check_for_new_messages_def check_for_new_domain_def
          dispatch_def handlers_get_def Let_def msg_def sleep_delay_def picky_def startup_def
          log_lines_def)
  from failure_ends_loop [OF ban pre fail, where post = "[quiet]"]
  obtain s' where tk: "tick picky ?inp ?sk = Raise ?e s'"
    and r: "is_Exception ?e \<and> close_client picky (n_closes (trace s')) = None \<longrightarrow>
              trace (final (run picky ([quiet] @ ?inp # [quiet]) ?s)) =
                trace s' @ Close #
                  log_lines (logging_enabled ?s) (suppress_errors ?s) (RunnerException ?e) INFO"
    by blast
  have "trace s' = trace (state_of (tick picky ?inp ?sk))" by (simp add: tk)
  moreover have "close_client picky (n_closes (trace s')) = None" by (simp add: picky_def)
  ultimately show ?thesis using r tr by (simp add: f log_lines_def)
qed

end
